theory Spec2Isabelle
  imports Main "HOL-Library.Word"
begin

section \<open>Data model of \<open>main.c\<close>\<close>

text \<open>
  The target is a 32-bit controller: \<open>void *\<close> and function pointers are 32-bit words,
  \<open>uint32_t\<close> and \<open>uint64_t\<close> are words whose arithmetic wraps, and \<open>int\<close> is a
  32-bit two's complement integer. An \<open>int\<close> is modelled as an \<open>int\<close> of HOL; the one
  place where an \<open>int\<close> of the program can leave the 32-bit range (the semaphore count)
  has the wrap-around written out with \<open>int32\<close>. A priority is only stored and
  compared, and every other \<open>int\<close> of the program is an index or a counter that its
  guard keeps between \<open>-1\<close> and \<open>10\<close>.
\<close>

type_synonym ptr = "32 word"

definition NULL :: ptr where
  "NULL = 0"

definition MAX_TASKS :: int where
  "MAX_TASKS = 5"

definition MAX_QUEUE_SIZE :: int where
  "MAX_QUEUE_SIZE = 10"

text \<open>Line 14 of the source: \<open>#define INT_MAX 999\<close>.\<close>

definition INT_MAX :: int where
  "INT_MAX = 999"

text \<open>Two's complement wrap-around of a 32-bit \<open>int\<close>.\<close>

definition int32 :: "int \<Rightarrow> int" where
  "int32 x = (x + 2147483648) mod 4294967296 - 2147483648"

text \<open>The \<open>%\<close> of C truncates towards zero: the remainder has the sign of the dividend.\<close>

definition c_rem :: "int \<Rightarrow> int \<Rightarrow> int" where
  "c_rem a b = sgn a * (\<bar>a\<bar> mod \<bar>b\<bar>)"

datatype task_state_t = TASK_READY | TASK_RUNNING | TASK_WAITING | TASK_TERMINATED

record task_t =
  func :: ptr
  param :: ptr
  interval_ms :: "32 word"
  last_run :: "64 word"
  state :: task_state_t
  priority :: int

record queue_t =
  items :: "ptr list"
  front :: int
  rear :: int
  size_q :: int

record event_flag_t =
  flag :: bool

record semaphore_t =
  count :: int

record mutex_t =
  locked :: bool

datatype scheduler_type_t =
  SCHEDULER_RR | SCHEDULER_FCFS | SCHEDULER_PRIORITY | SCHEDULER_PREEMPTIVE

section \<open>Queue\<close>

text \<open>\<open>queue_t task_queue = { .front = 0, .rear = 0, .size = 0 }\<close>, the items zeroed.\<close>

definition task_queue :: queue_t where
  "task_queue = \<lparr>items = replicate 10 NULL, front = 0, rear = 0, size_q = 0\<rparr>"

definition queue_push :: "queue_t \<Rightarrow> ptr \<Rightarrow> queue_t" where
  "queue_push queue item =
     (if size_q queue < MAX_QUEUE_SIZE
      then queue\<lparr>items := (items queue)[nat (rear queue) := item],
                 rear := c_rem (rear queue + 1) MAX_QUEUE_SIZE,
                 size_q := size_q queue + 1\<rparr>
      else queue)"

text \<open>\<open>queue_pop\<close> returns the pointer and the updated queue.\<close>

definition queue_pop :: "queue_t \<Rightarrow> ptr \<times> queue_t" where
  "queue_pop queue =
     (if size_q queue > 0
      then (items queue ! nat (front queue),
            queue\<lparr>front := c_rem (front queue + 1) MAX_QUEUE_SIZE,
                  size_q := size_q queue - 1\<rparr>)
      else (NULL, queue))"

text \<open>
  The indices of a queue stay inside the array: this is the invariant of every queue
  reached from \<open>task_queue\<close>, under which no access of \<open>queue_push\<close> or \<open>queue_pop\<close> is
  out of bounds.
\<close>

definition queue_inv :: "queue_t \<Rightarrow> bool" where
  "queue_inv q \<longleftrightarrow>
     length (items q) = 10 \<and> 0 \<le> front q \<and> front q < 10 \<and>
     0 \<le> size_q q \<and> size_q q \<le> 10 \<and> rear q = (front q + size_q q) mod 10"

text \<open>The items a queue holds, oldest first: \<open>size\<close> slots from \<open>front\<close> on, circularly.\<close>

definition queue_contents :: "queue_t \<Rightarrow> ptr list" where
  "queue_contents q =
     map (\<lambda>k. items q ! nat ((front q + int k) mod 10)) [0..<nat (size_q q)]"

text \<open>
  A caller's sequence of operations. \<open>queue_run\<close> performs them in order and keeps, beside
  the queue, the items the pops returned from a non-empty queue and the items the pushes
  stored (a push on a full queue stores nothing).
\<close>

datatype queue_op = Push ptr | Pop

fun queue_run :: "queue_t \<times> ptr list \<times> ptr list \<Rightarrow> queue_op list \<Rightarrow> queue_t \<times> ptr list \<times> ptr list" where
  "queue_run st [] = st"
| "queue_run (q, popped, stored) (Push x # ops) =
     queue_run (queue_push q x, popped,
                if size_q q < MAX_QUEUE_SIZE then stored @ [x] else stored) ops"
| "queue_run (q, popped, stored) (Pop # ops) =
     queue_run (snd (queue_pop q),
                if size_q q > 0 then popped @ [fst (queue_pop q)] else popped,
                stored) ops"

section \<open>Event flag, semaphore, mutex\<close>

definition event_flag_set :: "event_flag_t \<Rightarrow> event_flag_t" where
  "event_flag_set f = f\<lparr>flag := True\<rparr>"

definition event_flag_clear :: "event_flag_t \<Rightarrow> event_flag_t" where
  "event_flag_clear f = f\<lparr>flag := False\<rparr>"

definition event_flag_check :: "event_flag_t \<Rightarrow> bool" where
  "event_flag_check f = flag f"

definition semaphore_init :: "semaphore_t \<Rightarrow> int \<Rightarrow> semaphore_t" where
  "semaphore_init sem v = sem\<lparr>count := v\<rparr>"

text \<open>
  \<open>while (sem->count <= 0); sem->count--;\<close> in a single execution context: nothing
  changes the count while the loop spins, so the loop either falls through at once or
  never ends; \<open>None\<close> is the call that never returns.
\<close>

partial_function (option) semaphore_wait :: "semaphore_t \<Rightarrow> semaphore_t option" where
  "semaphore_wait sem =
     (if count sem \<le> 0 then semaphore_wait sem
      else Some (sem\<lparr>count := int32 (count sem - 1)\<rparr>))"

definition semaphore_signal :: "semaphore_t \<Rightarrow> semaphore_t" where
  "semaphore_signal sem = sem\<lparr>count := int32 (count sem + 1)\<rparr>"

text \<open>
  A sequence of calls on one semaphore; \<open>semaphore_run\<close> gives the semaphore after every
  call, in order, or \<open>None\<close> when one of the waits never returns.
\<close>

datatype semaphore_op = Wait | Signal

fun semaphore_run :: "semaphore_t \<Rightarrow> semaphore_op list \<Rightarrow> semaphore_t list option" where
  "semaphore_run sem [] = Some []"
| "semaphore_run sem (Wait # ops) =
     (case semaphore_wait sem of
        None \<Rightarrow> None
      | Some sem' \<Rightarrow> map_option ((#) sem') (semaphore_run sem' ops))"
| "semaphore_run sem (Signal # ops) =
     map_option ((#) (semaphore_signal sem)) (semaphore_run (semaphore_signal sem) ops)"

text \<open>
  The precondition of a run: every wait finds a positive count. \<open>signals_below k\<close>
  says moreover that every signal finds the count below \<open>k\<close>.
\<close>

fun waits_respected :: "semaphore_t \<Rightarrow> semaphore_op list \<Rightarrow> bool" where
  "waits_respected sem [] = True"
| "waits_respected sem (Wait # ops) =
     (0 < count sem \<and> waits_respected (sem\<lparr>count := int32 (count sem - 1)\<rparr>) ops)"
| "waits_respected sem (Signal # ops) = waits_respected (semaphore_signal sem) ops"

fun signals_below :: "int \<Rightarrow> semaphore_t \<Rightarrow> semaphore_op list \<Rightarrow> bool" where
  "signals_below k sem [] = True"
| "signals_below k sem (Wait # ops) =
     signals_below k (sem\<lparr>count := int32 (count sem - 1)\<rparr>) ops"
| "signals_below k sem (Signal # ops) =
     (count sem < k \<and> signals_below k (semaphore_signal sem) ops)"

text \<open>
  \<open>__atomic_test_and_set\<close> stores true and returns the previous value;
  \<open>mutex_lock\<close> repeats it until it returns false.
\<close>

definition atomic_test_and_set :: "mutex_t \<Rightarrow> bool \<times> mutex_t" where
  "atomic_test_and_set m = (locked m, m\<lparr>locked := True\<rparr>)"

partial_function (option) mutex_lock :: "mutex_t \<Rightarrow> mutex_t option" where
  "mutex_lock m =
     (if fst (atomic_test_and_set m) then mutex_lock (snd (atomic_test_and_set m))
      else Some (snd (atomic_test_and_set m)))"

definition mutex_unlock :: "mutex_t \<Rightarrow> mutex_t" where
  "mutex_unlock m = m\<lparr>locked := False\<rparr>"

section \<open>Task registry and scheduler\<close>

text \<open>
  The globals of the scheduler in one record: the task array and its count, the policy,
  the cursor of the round-robin case (the \<open>static int current_task\<close> local to
  \<open>scheduler_run\<close>) and the global \<open>current_task\<close> of the interrupt handler. Two
  fields record what the program does to the outside: \<open>invoked\<close> lists the callbacks
  called, oldest first, each with the index of its task, the function pointer and the
  parameter passed; \<open>warnings\<close> lists the \<open>ESP_LOGW\<close> lines. A callback is an opaque
  function pointer: the four tasks of \<open>app_main\<close> touch the queue, the event flag, the
  mutex and the semaphore, never the registry, so a call leaves the registry as it is.
\<close>

record sched =
  task_list :: "task_t list"
  task_count :: int
  scheduler_type :: scheduler_type_t
  current_task_rr :: int
  current_task :: int
  invoked :: "(int \<times> ptr \<times> ptr) list"
  warnings :: "(string \<times> string) list"

definition zero_task :: task_t where
  "zero_task = \<lparr>func = NULL, param = NULL, interval_ms = 0, last_run = 0,
                 state = TASK_READY, priority = 0\<rparr>"

definition sched_init :: sched where
  "sched_init = \<lparr>task_list = replicate 5 zero_task, task_count = 0,
                  scheduler_type = SCHEDULER_RR, current_task_rr = 0, current_task = - 1,
                  invoked = [], warnings = []\<rparr>"

definition scheduler_add_task :: "ptr \<Rightarrow> ptr \<Rightarrow> 32 word \<Rightarrow> int \<Rightarrow> sched \<Rightarrow> sched" where
  "scheduler_add_task f p ival prio s =
     (if task_count s < MAX_TASKS
      then s\<lparr>task_list := (task_list s)[nat (task_count s) :=
                 (task_list s ! nat (task_count s))
                   \<lparr>func := f, param := p, interval_ms := ival, last_run := 0,
                    state := TASK_READY, priority := prio\<rparr>],
             task_count := task_count s + 1\<rparr>
      else s\<lparr>warnings := warnings s @ [(''Scheduler'', ''Max tasks reached'')]\<rparr>)"

definition task_update :: "int \<Rightarrow> (task_t \<Rightarrow> task_t) \<Rightarrow> sched \<Rightarrow> sched" where
  "task_update i f s = s\<lparr>task_list := (task_list s)[nat i := f (task_list s ! nat i)]\<rparr>"

definition scheduler_remove_task :: "int \<Rightarrow> sched \<Rightarrow> sched" where
  "scheduler_remove_task index s =
     (if index \<ge> 0 \<and> index < task_count s
      then task_update index (\<lambda>t. t\<lparr>state := TASK_TERMINATED\<rparr>) s
      else s)"

text \<open>The timer calls of \<open>scheduler_setup\<close> configure hardware and are left out.\<close>

definition scheduler_setup :: "scheduler_type_t \<Rightarrow> sched \<Rightarrow> sched" where
  "scheduler_setup type s = s\<lparr>scheduler_type := type\<rparr>"

text \<open>
  The test every policy makes, \<open>state != TASK_TERMINATED && now - last_run >= interval_ms\<close>,
  in \<open>uint64_t\<close> arithmetic: the subtraction wraps and the interval is widened.
\<close>

definition eligible :: "64 word \<Rightarrow> task_t \<Rightarrow> bool" where
  "eligible now t \<longleftrightarrow> state t \<noteq> TASK_TERMINATED \<and> now - last_run t \<ge> ucast (interval_ms t)"

text \<open>\<open>task_list[i].func(task_list[i].param)\<close>.\<close>

definition invoke :: "int \<Rightarrow> sched \<Rightarrow> sched" where
  "invoke i s =
     s\<lparr>invoked := invoked s @ [(i, func (task_list s ! nat i), param (task_list s ! nat i))]\<rparr>"

text \<open>The four statements with which every policy runs task \<open>i\<close>.\<close>

definition run_task :: "int \<Rightarrow> 64 word \<Rightarrow> sched \<Rightarrow> sched" where
  "run_task i now s =
     task_update i (\<lambda>t. t\<lparr>state := TASK_READY\<rparr>)
       (task_update i (\<lambda>t. t\<lparr>last_run := now\<rparr>)
         (invoke i
           (task_update i (\<lambda>t. t\<lparr>state := TASK_RUNNING\<rparr>) s)))"

text \<open>The loop of the first-come-first-served case, over the indices still to visit.\<close>

fun fcfs_loop :: "64 word \<Rightarrow> nat list \<Rightarrow> sched \<Rightarrow> sched" where
  "fcfs_loop now [] s = s"
| "fcfs_loop now (i # rest) s =
     (if eligible now (task_list s ! i) then run_task (int i) now s
      else fcfs_loop now rest s)"

text \<open>
  The selection loop of the priority case and of the interrupt handler; the pair is
  \<open>(highest_priority_task, highest_priority)\<close>.
\<close>

fun priority_loop :: "64 word \<Rightarrow> task_t list \<Rightarrow> nat list \<Rightarrow> int \<times> int \<Rightarrow> int \<times> int" where
  "priority_loop now tasks [] best = best"
| "priority_loop now tasks (i # rest) (highest_priority_task, highest_priority) =
     priority_loop now tasks rest
       (if eligible now (tasks ! i) \<and> priority (tasks ! i) < highest_priority
        then (int i, priority (tasks ! i))
        else (highest_priority_task, highest_priority))"

definition highest_priority_task :: "64 word \<Rightarrow> sched \<Rightarrow> int" where
  "highest_priority_task now s =
     fst (priority_loop now (task_list s) [0..<nat (task_count s)] (- 1, INT_MAX))"

text \<open>\<open>scheduler_run\<close>; \<open>now\<close> is the clock's \<open>esp_timer_get_time() / 1000\<close>.\<close>

definition scheduler_run :: "64 word \<Rightarrow> sched \<Rightarrow> sched" where
  "scheduler_run now s =
     (case scheduler_type s of
        SCHEDULER_RR \<Rightarrow>
          if task_count s = 0 then s
          else
            (let s' = (if eligible now (task_list s ! nat (current_task_rr s))
                       then run_task (current_task_rr s) now s else s)
             in s'\<lparr>current_task_rr := c_rem (current_task_rr s' + 1) (task_count s')\<rparr>)
      | SCHEDULER_FCFS \<Rightarrow> fcfs_loop now [0..<nat (task_count s)] s
      | SCHEDULER_PRIORITY \<Rightarrow>
          if highest_priority_task now s \<noteq> - 1
          then run_task (highest_priority_task now s) now s
          else s
      | SCHEDULER_PREEMPTIVE \<Rightarrow> s)"

text \<open>\<open>timer_isr\<close>; clearing and re-arming the interrupt is hardware and left out.\<close>

definition timer_isr :: "64 word \<Rightarrow> sched \<Rightarrow> sched" where
  "timer_isr now s =
     (if highest_priority_task now s \<noteq> - 1 \<and> highest_priority_task now s \<noteq> current_task s
      then
        (let s1 = (if current_task s \<noteq> - 1
                   then task_update (current_task s) (\<lambda>t. t\<lparr>state := TASK_READY\<rparr>) s
                   else s);
             s2 = s1\<lparr>current_task := highest_priority_task now s\<rparr>
         in run_task (current_task s2) now s2)
      else s)"

text \<open>
  What holds of the scheduler's globals in every state reached from \<open>sched_init\<close>, and
  keeps every array access in bounds.
\<close>

definition sched_inv :: "sched \<Rightarrow> bool" where
  "sched_inv s \<longleftrightarrow>
     length (task_list s) = 5 \<and> 0 \<le> task_count s \<and> task_count s \<le> 5 \<and>
     0 \<le> current_task_rr s \<and> (current_task_rr s < task_count s \<or> current_task_rr s = 0) \<and>
     (current_task s = - 1 \<or> 0 \<le> current_task s \<and> current_task s < task_count s)"

text \<open>The calls a driver makes, and a run of them in order.\<close>

datatype sched_op =
  Add ptr ptr "32 word" int | Remove int | Setup scheduler_type_t | Tick "64 word"

fun sched_step :: "sched_op \<Rightarrow> sched \<Rightarrow> sched" where
  "sched_step (Add f p ival prio) s = scheduler_add_task f p ival prio s"
| "sched_step (Remove i) s = scheduler_remove_task i s"
| "sched_step (Setup type) s = scheduler_setup type s"
| "sched_step (Tick now) s = scheduler_run now s"

fun sched_steps :: "sched_op list \<Rightarrow> sched \<Rightarrow> sched" where
  "sched_steps [] s = s"
| "sched_steps (op # ops) s = sched_steps ops (sched_step op s)"

text \<open>Consecutive invocations of the interrupt handler, at the given times.\<close>

fun timer_isr_run :: "64 word list \<Rightarrow> sched \<Rightarrow> sched" where
  "timer_isr_run [] s = s"
| "timer_isr_run (now # nows) s = timer_isr_run nows (timer_isr now s)"

text \<open>
  \<open>sole_winner i nows s\<close>: at each of these invocations the selection loop of the handler
  finds task \<open>i\<close> or no task at all, so that no other task wins one.
\<close>

fun sole_winner :: "int \<Rightarrow> 64 word list \<Rightarrow> sched \<Rightarrow> bool" where
  "sole_winner i [] s = True"
| "sole_winner i (now # nows) s =
     ((highest_priority_task now s = i \<or> highest_priority_task now s = - 1) \<and>
      sole_winner i nows (timer_isr now s))"

section \<open>Example states\<close>

text \<open>A queue that has wrapped around: three items, the oldest in the last slot.\<close>

definition three_items :: queue_t where
  "three_items = \<lparr>items = [5, 6, 7, 0, 0, 0, 0, 0, 0, 9], front = 9, rear = 2, size_q = 3\<rparr>"

text \<open>
  One task of priority 1000, always due (interval 0), under the priority policy.
\<close>

definition one_task_1000 :: sched where
  "one_task_1000 =
     sched_steps [Add 1 0 0 1000, Setup SCHEDULER_PRIORITY] sched_init"

text \<open>A full registry: the four tasks of \<open>app_main\<close> and a fifth.\<close>

definition five_tasks :: sched where
  "five_tasks =
     sched_steps [Add 1 0 1000 2, Add 2 0 1500 1, Add 3 0 2000 3, Add 4 0 2500 4,
                  Add 5 0 3000 5] sched_init"

text \<open>The full registry after its second task was removed.\<close>

definition five_tasks_removed :: sched where
  "five_tasks_removed = scheduler_remove_task 1 five_tasks"

text \<open>Two tasks that are always due (interval 0), under the preemptive policy.\<close>

definition two_tasks_preemptive :: sched where
  "two_tasks_preemptive =
     sched_steps [Add 1 0 0 1, Add 2 0 0 2, Setup SCHEDULER_PREEMPTIVE] sched_init"

text \<open>Two tasks that are always due (interval 0), under the first-come-first-served policy.\<close>

definition two_tasks_fcfs :: sched where
  "two_tasks_fcfs =
     sched_steps [Add 1 0 0 1, Add 2 0 0 2, Setup SCHEDULER_FCFS] sched_init"

text \<open>
  Three tasks of equal intervals under the round-robin policy (the policy at start-up):
  registered before any tick, and with the third registered after one tick.
\<close>

definition three_tasks_fresh :: sched where
  "three_tasks_fresh =
     sched_steps [Add 1 0 10 0, Add 2 0 10 0, Add 3 0 10 0] sched_init"

definition three_tasks_rr :: sched where
  "three_tasks_rr =
     sched_steps [Add 1 0 10 0, Add 2 0 10 0, Tick 10, Add 3 0 10 0] sched_init"

text \<open>The registry of five under the first-come-first-served policy: untouched, and with its
  second task removed and one tick done at 2000 ms.\<close>

definition fcfs_removed :: sched where
  "fcfs_removed = sched_steps [Setup SCHEDULER_FCFS, Tick 2000] five_tasks_removed"

definition fcfs_five :: sched where
  "fcfs_five = scheduler_setup SCHEDULER_FCFS five_tasks"

text \<open>
  The two preemptive tasks after the handler has dispatched task 0 at 5 ms, task 0 has
  been removed, and the handler has run once more at 6 ms.
\<close>

definition removed_then_interrupted :: sched where
  "removed_then_interrupted =
     timer_isr 6 (scheduler_remove_task 0 (timer_isr 5 two_tasks_preemptive))"

section \<open>Facts about the queue\<close>

lemma c_rem_nonneg: "0 \<le> a \<Longrightarrow> 0 < b \<Longrightarrow> c_rem a b = a mod b"
  by (cases "a = 0") (simp_all add: c_rem_def)

lemma slot_distinct:
  fixes f :: int
  assumes "k < n" "n < 10"
  shows "(f + int k) mod 10 \<noteq> (f + int n) mod 10"
proof
  assume "(f + int k) mod 10 = (f + int n) mod 10"
  then have "(10::int) dvd int k - int n"
    by (simp add: mod_eq_dvd_iff)
  then obtain c where c: "int k - int n = 10 * c" ..
  with assms show False by arith
qed

lemma queue_inv_init: "queue_inv task_queue"
  by (simp add: queue_inv_def task_queue_def)

lemma queue_push_full: "\<not> size_q q < 10 \<Longrightarrow> queue_push q x = q"
  by (simp add: queue_push_def MAX_QUEUE_SIZE_def)

lemma queue_push_inv: "queue_inv q \<Longrightarrow> queue_inv (queue_push q x)"
  unfolding queue_inv_def queue_push_def MAX_QUEUE_SIZE_def
  by (simp add: c_rem_nonneg mod_simps add.assoc)

lemma queue_pop_inv: "queue_inv q \<Longrightarrow> queue_inv (snd (queue_pop q))"
  unfolding queue_inv_def queue_pop_def MAX_QUEUE_SIZE_def
  by (simp add: c_rem_nonneg mod_simps)

lemma queue_push_contents:
  assumes "queue_inv q" "size_q q < 10"
  shows "queue_contents (queue_push q x) = queue_contents q @ [x]"
proof -
  let ?n = "nat (size_q q)"
  have s0: "0 \<le> size_q q" using assms by (simp add: queue_inv_def)
  have n: "nat (size_q q + 1) = Suc ?n" using s0 by arith
  have n10: "?n < 10" using assms(2) s0 by arith
  have r: "rear q = (front q + int ?n) mod 10" using assms s0 by (simp add: queue_inv_def)
  have len: "nat (rear q) < length (items q)" using assms(1) by (simp add: queue_inv_def)
  have old: "(items q)[nat (rear q) := x] ! nat ((front q + int k) mod 10)
      = items q ! nat ((front q + int k) mod 10)" if k: "k < ?n" for k
  proof -
    have "(front q + int k) mod 10 \<noteq> (front q + int ?n) mod 10"
      using k n10 by (rule slot_distinct)
    then have "nat ((front q + int k) mod 10) \<noteq> nat (rear q)"
      unfolding r by (simp add: nat_eq_iff)
    then show ?thesis by simp
  qed
  have "queue_contents (queue_push q x) =
      map (\<lambda>k. (items q)[nat (rear q) := x] ! nat ((front q + int k) mod 10)) [0..<Suc ?n]"
    using assms(2) by (simp add: queue_contents_def queue_push_def MAX_QUEUE_SIZE_def n)
  also have "\<dots> = map (\<lambda>k. (items q)[nat (rear q) := x] ! nat ((front q + int k) mod 10)) [0..<?n]
       @ [(items q)[nat (rear q) := x] ! nat (rear q)]"
    by (simp add: r)
  also have "\<dots> = queue_contents q @ [x]"
    using len old by (simp add: queue_contents_def)
  finally show ?thesis .
qed

lemma queue_pop_contents:
  assumes "queue_inv q" "0 < size_q q"
  shows "queue_contents q = fst (queue_pop q) # queue_contents (snd (queue_pop q))"
proof -
  let ?n = "nat (size_q q - 1)"
  have n: "nat (size_q q) = Suc ?n" using assms(2) by arith
  have f: "0 \<le> front q" "front q < 10" using assms(1) by (simp_all add: queue_inv_def)
  have u: "[0..<Suc ?n] = 0 # map Suc [0..<?n]"
    by (simp add: upt_conv_Cons map_Suc_upt del: upt_Suc)
  have "queue_contents q = map (\<lambda>k. items q ! nat ((front q + int k) mod 10)) (0 # map Suc [0..<?n])"
    unfolding queue_contents_def n u ..
  also have "\<dots> = items q ! nat (front q) #
       map (\<lambda>k. items q ! nat ((front q + 1 + int k) mod 10)) [0..<?n]"
    using f by (simp add: o_def ac_simps)
  also have "\<dots> = fst (queue_pop q) # queue_contents (snd (queue_pop q))"
    using assms(2) f
    by (simp add: queue_contents_def queue_pop_def MAX_QUEUE_SIZE_def c_rem_nonneg mod_simps ac_simps)
  finally show ?thesis .
qed

lemma queue_contents_length: "length (queue_contents q) = nat (size_q q)"
  by (simp add: queue_contents_def)

lemma queue_pop_empty: "size_q q \<le> 0 \<Longrightarrow> queue_pop q = (NULL, q)"
  by (simp add: queue_pop_def)

lemma queue_pop_fields:
  assumes "queue_inv q" "0 < size_q q"
  shows "queue_pop q =
    (items q ! nat (front q), q\<lparr>front := (front q + 1) mod 10, size_q := size_q q - 1\<rparr>)"
  using assms by (simp add: queue_pop_def queue_inv_def MAX_QUEUE_SIZE_def c_rem_nonneg)

lemma queue_run_inv:
  assumes "queue_inv q" "stored = popped @ queue_contents q"
    and "queue_run (q, popped, stored) ops = (q', popped', stored')"
  shows "queue_inv q' \<and> stored' = popped' @ queue_contents q'"
  using assms
proof (induction ops arbitrary: q popped stored)
  case Nil
  then show ?case by auto
next
  case (Cons a ops)
  show ?case
  proof (cases a)
    case (Push x)
    show ?thesis
    proof (cases "size_q q < 10")
      case True
      have "queue_run (queue_push q x, popped, stored @ [x]) ops = (q', popped', stored')"
        using Cons.prems(3) Push True by (simp add: MAX_QUEUE_SIZE_def)
      moreover have "queue_inv (queue_push q x)"
        using Cons.prems(1) by (rule queue_push_inv)
      moreover have "stored @ [x] = popped @ queue_contents (queue_push q x)"
        using Cons.prems(1,2) True by (simp add: queue_push_contents)
      ultimately show ?thesis by (rule Cons.IH [rotated 2])
    next
      case False
      then have "queue_run (q, popped, stored) ops = (q', popped', stored')"
        using Cons.prems(3) Push by (simp add: MAX_QUEUE_SIZE_def queue_push_full)
      with Cons.prems(1,2) show ?thesis by (rule Cons.IH)
    qed
  next
    case Pop
    show ?thesis
    proof (cases "0 < size_q q")
      case True
      have "queue_run (snd (queue_pop q), popped @ [fst (queue_pop q)], stored) ops = (q', popped', stored')"
        using Cons.prems(3) Pop True by simp
      moreover have "queue_inv (snd (queue_pop q))"
        using Cons.prems(1) by (rule queue_pop_inv)
      moreover have "stored = (popped @ [fst (queue_pop q)]) @ queue_contents (snd (queue_pop q))"
        using Cons.prems(1,2) True queue_pop_contents [of q] by simp
      ultimately show ?thesis by (rule Cons.IH [rotated 2])
    next
      case False
      then have "queue_run (q, popped, stored) ops = (q', popped', stored')"
        using Cons.prems(3) Pop by (simp add: queue_pop_def)
      with Cons.prems(1,2) show ?thesis by (rule Cons.IH)
    qed
  qed
qed

lemma ten_pushes:
  "queue_run (task_queue, [], [])
     [Push 1, Push 2, Push 3, Push 4, Push 5, Push 6, Push 7, Push 8, Push 9, Push 10,
      Push 11, Pop, Push 12]
   = (\<lparr>items = [12, 2, 3, 4, 5, 6, 7, 8, 9, 10], front = 1, rear = 1, size_q = 10\<rparr>,
      [1], [1, 2, 3, 4, 5, 6, 7, 8, 9, 10, 12])"
  by (simp add: task_queue_def queue_push_def queue_pop_def MAX_QUEUE_SIZE_def c_rem_def NULL_def
      eval_nat_numeral)

text \<open>
  C2. As stated the claim fails: \<open>queue_pop\<close> on an empty queue returns the null pointer,
  and the null pointer is an item like any other: pushed on the empty queue (the
  producer's first item is \<open>(void *)0\<close>) it is stored, and the pop that returns it gives
  the very value the pop on the empty queue gives.
\<close>

theorem queue_pop_null_counterexample:
  "size_q task_queue = 0 \<and>
   queue_contents (queue_push task_queue NULL) = [NULL] \<and>
   fst (queue_pop (queue_push task_queue NULL)) = fst (queue_pop task_queue)"
  by (simp add: task_queue_def queue_push_def queue_pop_def queue_contents_def
      MAX_QUEUE_SIZE_def c_rem_def)

text \<open>
  C2, amended. On an empty queue \<open>queue_pop\<close> returns the null pointer and leaves the
  queue as it is; the null pointer can be stored like any item, so the result does not
  tell an empty queue from a stored null. On a non-empty queue \<open>queue_pop\<close> returns the
  item at \<open>front\<close>, which is the oldest item held, advances \<open>front\<close> circularly and
  decrements \<open>size\<close>; the items left are the others, in order.
\<close>

theorem queue_pop_result:
  "(size_q q = 0 \<longrightarrow> queue_pop q = (NULL, q)) \<and>
   (queue_inv q \<and> size_q q < 10 \<longrightarrow>
      queue_contents (queue_push q NULL) = queue_contents q @ [NULL]) \<and>
   (queue_inv q \<and> 0 < size_q q \<longrightarrow>
      queue_pop q =
        (items q ! nat (front q), q\<lparr>front := (front q + 1) mod 10, size_q := size_q q - 1\<rparr>) \<and>
      queue_contents q = fst (queue_pop q) # queue_contents (snd (queue_pop q)))"
  using queue_pop_empty [of q] queue_push_contents [of q NULL] queue_pop_fields [of q]
    queue_pop_contents [of q]
  by simp

theorem queue_pop_result_witness:
  "size_q task_queue = 0 \<and> queue_pop task_queue = (NULL, task_queue) \<and>
   queue_inv three_items \<and> size_q three_items < 10 \<and> 0 < size_q three_items \<and>
   queue_contents (queue_push three_items NULL) = [9, 5, 6, NULL] \<and>
   queue_pop three_items = (9, three_items\<lparr>front := 0, size_q := 2\<rparr>) \<and>
   queue_contents (snd (queue_pop three_items)) = [5, 6]"
proof -
  have e: "size_q task_queue = 0" by (simp add: task_queue_def)
  have i: "queue_inv three_items" by (simp add: three_items_def queue_inv_def)
  have s: "size_q three_items < 10" "0 < size_q three_items" by (simp_all add: three_items_def)
  have c: "queue_contents three_items = [9, 5, 6]"
    by (simp add: three_items_def queue_contents_def eval_nat_numeral)
  have f: "items three_items ! nat (front three_items) = 9" "(front three_items + 1) mod 10 = 0"
    "size_q three_items - 1 = 2"
    by (simp_all add: three_items_def)
  show ?thesis
    using queue_pop_result [of task_queue] queue_pop_result [of three_items] e i s c f
    by simp
qed

text \<open>
  C3. After any sequence of pushes and pops on the initial queue (so also after every
  prefix of it) \<open>size\<close> is between 0 and 10; the items stored are the items popped
  followed by the items still held, so the items popped are the first of the items
  stored, in the order of their pushes; and a push on a queue of 10 items changes
  nothing: the items, \<open>front\<close>, \<open>rear\<close> and \<open>size\<close> are as before.
\<close>

theorem queue_fifo_bounded:
  assumes "queue_run (task_queue, [], []) ops = (q, popped, stored)"
  shows "0 \<le> size_q q \<and> size_q q \<le> 10 \<and>
         stored = popped @ queue_contents q \<and>
         popped = take (length popped) stored \<and>
         length (queue_contents q) = nat (size_q q) \<and>
         (size_q q = 10 \<longrightarrow> queue_push q x = q)"
proof -
  have "queue_inv q \<and> stored = popped @ queue_contents q"
    using queue_inv_init _ assms
    by (rule queue_run_inv) (simp add: task_queue_def queue_contents_def)
  then show ?thesis
    by (simp add: queue_inv_def queue_contents_length queue_push_full)
qed

theorem queue_fifo_bounded_witness:
  "queue_run (task_queue, [], [])
     [Push 1, Push 2, Push 3, Push 4, Push 5, Push 6, Push 7, Push 8, Push 9, Push 10,
      Push 11, Pop, Push 12]
   = (\<lparr>items = [12, 2, 3, 4, 5, 6, 7, 8, 9, 10], front = 1, rear = 1, size_q = 10\<rparr>,
      [1], [1, 2, 3, 4, 5, 6, 7, 8, 9, 10, 12])
   \<and> [1, 2, 3, 4, 5, 6, 7, 8, 9, 10, 12] =
       [1] @ queue_contents \<lparr>items = [12, 2, 3, 4, 5, 6, 7, 8, 9, 10], front = 1, rear = 1, size_q = 10\<rparr>
   \<and> queue_push \<lparr>items = [12, 2, 3, 4, 5, 6, 7, 8, 9, 10], front = 1, rear = 1, size_q = 10\<rparr> 13
       = \<lparr>items = [12, 2, 3, 4, 5, 6, 7, 8, 9, 10], front = 1, rear = 1, size_q = 10\<rparr>"
  using queue_fifo_bounded [OF ten_pushes, of 13] ten_pushes by simp

section \<open>Facts about the semaphore and the mutex\<close>

lemma int32_id: "- 2147483648 \<le> x \<Longrightarrow> x < 2147483648 \<Longrightarrow> int32 x = x"
  by (simp add: int32_def)

lemma semaphore_wait_returns:
  assumes "semaphore_wait sem = Some sem'"
  shows "0 < count sem"
proof (rule semaphore_wait.raw_induct [where P = "\<lambda>s _. 0 < count s", OF _ assms])
  fix wait :: "semaphore_t \<Rightarrow> semaphore_t option" and s s'
  assume "\<And>x y. wait x = Some y \<Longrightarrow> 0 < count x"
    and "(if count s \<le> 0 then wait s else Some (s\<lparr>count := int32 (count s - 1)\<rparr>)) = Some s'"
  then show "0 < count s" by (cases "count s \<le> 0") simp_all
qed

lemma semaphore_wait_spins: "count sem \<le> 0 \<Longrightarrow> semaphore_wait sem = None"
  using semaphore_wait_returns [of sem] by (cases "semaphore_wait sem") auto

lemma semaphore_wait_pos:
  "0 < count sem \<Longrightarrow> semaphore_wait sem = Some (sem\<lparr>count := int32 (count sem - 1)\<rparr>)"
  by (subst semaphore_wait.simps) simp

lemma semaphore_run_nonneg:
  assumes "0 \<le> count sem" "count sem \<le> 2147483647"
    and "waits_respected sem ops" "signals_below 2147483647 sem ops"
  shows "\<exists>tr. semaphore_run sem ops = Some tr \<and> length tr = length ops \<and>
           (\<forall>s \<in> set tr. 0 \<le> count s \<and> count s \<le> 2147483647)"
  using assms
proof (induction ops arbitrary: sem)
  case Nil
  then show ?case by simp
next
  case (Cons a ops)
  show ?case
  proof (cases a)
    case Wait
    let ?s = "sem\<lparr>count := int32 (count sem - 1)\<rparr>"
    have pos: "0 < count sem" using Cons.prems(3) Wait by simp
    have c: "count ?s = count sem - 1" using pos Cons.prems(2) by (simp add: int32_id)
    have "\<exists>tr. semaphore_run ?s ops = Some tr \<and> length tr = length ops \<and>
           (\<forall>s \<in> set tr. 0 \<le> count s \<and> count s \<le> 2147483647)"
    proof (rule Cons.IH)
      show "0 \<le> count ?s" using c pos by simp
      show "count ?s \<le> 2147483647" using c Cons.prems(2) by simp
      show "waits_respected ?s ops" using Cons.prems(3) Wait by simp
      show "signals_below 2147483647 ?s ops" using Cons.prems(4) Wait by simp
    qed
    then obtain tr where tr: "semaphore_run ?s ops = Some tr" "length tr = length ops"
      "\<forall>s \<in> set tr. 0 \<le> count s \<and> count s \<le> 2147483647" by blast
    have "semaphore_run sem (a # ops) = Some (?s # tr)"
      using Wait pos tr(1) by (simp add: semaphore_wait_pos)
    moreover have "0 \<le> count ?s \<and> count ?s \<le> 2147483647" using c pos Cons.prems(2) by simp
    ultimately show ?thesis using tr(2,3) by simp
  next
    case Signal
    let ?s = "semaphore_signal sem"
    have lt: "count sem < 2147483647" using Cons.prems(4) Signal by simp
    have c: "count ?s = count sem + 1"
      using lt Cons.prems(1) by (simp add: semaphore_signal_def int32_id)
    have "\<exists>tr. semaphore_run ?s ops = Some tr \<and> length tr = length ops \<and>
           (\<forall>s \<in> set tr. 0 \<le> count s \<and> count s \<le> 2147483647)"
    proof (rule Cons.IH)
      show "0 \<le> count ?s" using c Cons.prems(1) by simp
      show "count ?s \<le> 2147483647" using c lt by simp
      show "waits_respected ?s ops" using Cons.prems(3) Signal by simp
      show "signals_below 2147483647 ?s ops" using Cons.prems(4) Signal by simp
    qed
    then obtain tr where tr: "semaphore_run ?s ops = Some tr" "length tr = length ops"
      "\<forall>s \<in> set tr. 0 \<le> count s \<and> count s \<le> 2147483647" by blast
    have "semaphore_run sem (a # ops) = Some (?s # tr)"
      using Signal tr(1) by simp
    moreover have "0 \<le> count ?s \<and> count ?s \<le> 2147483647" using c lt Cons.prems(1) by simp
    ultimately show ?thesis using tr(2,3) by simp
  qed
qed

text \<open>
  C8. As stated the claim fails at the top of the \<open>int\<close> range: from the non-negative
  count 2147483647 a single signal, in a sequence with no wait at all, leaves the count
  negative.
\<close>

theorem semaphore_overflow_counterexample:
  "0 \<le> count \<lparr>count = 2147483647\<rparr> \<and>
   waits_respected \<lparr>count = 2147483647\<rparr> [Signal] \<and>
   semaphore_run \<lparr>count = 2147483647\<rparr> [Signal] = Some [\<lparr>count = - 2147483648\<rparr>] \<and>
   count \<lparr>count = - 2147483648\<rparr> < 0"
  by (simp add: semaphore_signal_def int32_def)

text \<open>
  C8, amended. From a non-negative count, a sequence of waits and signals in which every
  wait finds the count positive and every signal finds it below 2147483647 returns from
  every call, and the count is never negative, after any of the calls. A signal below
  that bound adds one to the count whatever the count is: nothing caps it.
\<close>

theorem semaphore_count_nonneg:
  assumes "0 \<le> count sem" "count sem \<le> 2147483647"
    and "waits_respected sem ops" "signals_below 2147483647 sem ops"
  shows "(\<exists>tr. semaphore_run sem ops = Some tr \<and> length tr = length ops \<and>
            (\<forall>s \<in> set tr. 0 \<le> count s)) \<and>
         (count sem < 2147483647 \<longrightarrow> count (semaphore_signal sem) = count sem + 1)"
proof -
  from semaphore_run_nonneg [OF assms]
  have "\<exists>tr. semaphore_run sem ops = Some tr \<and> length tr = length ops \<and>
            (\<forall>s \<in> set tr. 0 \<le> count s)" by blast
  moreover have "count sem < 2147483647 \<longrightarrow> count (semaphore_signal sem) = count sem + 1"
    using assms(1) by (simp add: semaphore_signal_def int32_id)
  ultimately show ?thesis by simp
qed

theorem semaphore_count_nonneg_witness:
  "0 \<le> count \<lparr>count = 1\<rparr> \<and> count \<lparr>count = 1\<rparr> \<le> 2147483647 \<and>
   waits_respected \<lparr>count = 1\<rparr> [Wait, Signal, Signal, Wait] \<and>
   signals_below 2147483647 \<lparr>count = 1\<rparr> [Wait, Signal, Signal, Wait] \<and>
   semaphore_run \<lparr>count = 1\<rparr> [Wait, Signal, Signal, Wait] =
     Some [\<lparr>count = 0\<rparr>, \<lparr>count = 1\<rparr>, \<lparr>count = 2\<rparr>, \<lparr>count = 1\<rparr>] \<and>
   count (semaphore_signal \<lparr>count = 1\<rparr>) = 2"
proof -
  have h: "0 \<le> count \<lparr>count = 1\<rparr>" "count \<lparr>count = 1\<rparr> \<le> 2147483647"
    "waits_respected \<lparr>count = 1\<rparr> [Wait, Signal, Signal, Wait]"
    "signals_below 2147483647 \<lparr>count = 1\<rparr> [Wait, Signal, Signal, Wait]"
    by (simp_all add: semaphore_signal_def int32_def)
  have r: "semaphore_run \<lparr>count = 1\<rparr> [Wait, Signal, Signal, Wait] =
     Some [\<lparr>count = 0\<rparr>, \<lparr>count = 1\<rparr>, \<lparr>count = 2\<rparr>, \<lparr>count = 1\<rparr>]"
    by (simp add: semaphore_wait_pos semaphore_signal_def int32_def)
  show ?thesis
    using semaphore_count_nonneg [OF h] h r by simp
qed

lemma mutex_lock_returns:
  assumes "mutex_lock m = Some m'"
  shows "\<not> locked m"
proof (rule mutex_lock.raw_induct [where P = "\<lambda>x _. \<not> locked x", OF _ assms])
  fix lock :: "mutex_t \<Rightarrow> mutex_t option" and x x'
  assume ih: "\<And>a b. lock a = Some b \<Longrightarrow> \<not> locked a"
    and step: "(if fst (atomic_test_and_set x) then lock (snd (atomic_test_and_set x))
                else Some (snd (atomic_test_and_set x))) = Some x'"
  show "\<not> locked x"
  proof
    assume "locked x"
    then have "lock (x\<lparr>locked := True\<rparr>) = Some x'"
      using step by (simp add: atomic_test_and_set_def)
    then have "\<not> locked (x\<lparr>locked := True\<rparr>)" by (rule ih)
    then show False by simp
  qed
qed

lemma mutex_lock_locked: "locked m \<Longrightarrow> mutex_lock m = None"
  using mutex_lock_returns [of m] by (cases "mutex_lock m") auto

lemma mutex_lock_unlocked: "\<not> locked m \<Longrightarrow> mutex_lock m = Some (m\<lparr>locked := True\<rparr>)"
  by (subst mutex_lock.simps) (simp only: atomic_test_and_set_def fst_conv snd_conv if_False)

text \<open>
  C9. \<open>mutex_lock\<close> returns only when the flag it found was unlocked, and leaves it
  locked; on a locked mutex it never returns. So a lock that follows a lock that
  returned never returns, unless an unlock comes between them, after which it returns
  again.
\<close>

theorem mutex_lock_exclusive:
  "(\<not> locked m \<longrightarrow> mutex_lock m = Some (m\<lparr>locked := True\<rparr>)) \<and>
   (locked m \<longrightarrow> mutex_lock m = None) \<and>
   (mutex_lock m = Some m' \<longrightarrow>
      \<not> locked m \<and> locked m' \<and> mutex_lock m' = None \<and>
      \<not> locked (mutex_unlock m') \<and> mutex_lock (mutex_unlock m') = Some m')"
proof -
  have "\<not> locked m \<and> locked m' \<and> mutex_lock m' = None \<and>
      \<not> locked (mutex_unlock m') \<and> mutex_lock (mutex_unlock m') = Some m'"
    if r: "mutex_lock m = Some m'"
  proof -
    have u: "\<not> locked m" using r by (rule mutex_lock_returns)
    then have m': "m' = m\<lparr>locked := True\<rparr>" using r by (simp add: mutex_lock_unlocked)
    then show ?thesis
      using u by (simp add: mutex_lock_locked mutex_lock_unlocked mutex_unlock_def)
  qed
  moreover have "\<not> locked m \<longrightarrow> mutex_lock m = Some (m\<lparr>locked := True\<rparr>)"
    using mutex_lock_unlocked [of m] by blast
  moreover have "locked m \<longrightarrow> mutex_lock m = None"
    using mutex_lock_locked [of m] by blast
  ultimately show ?thesis by blast
qed

theorem mutex_lock_exclusive_witness:
  "\<not> locked \<lparr>locked = False\<rparr> \<and>
   mutex_lock \<lparr>locked = False\<rparr> = Some \<lparr>locked = True\<rparr> \<and>
   locked \<lparr>locked = True\<rparr> \<and>
   mutex_lock \<lparr>locked = True\<rparr> = None \<and>
   mutex_lock (mutex_unlock \<lparr>locked = True\<rparr>) = Some \<lparr>locked = True\<rparr>"
  using mutex_lock_exclusive [of "\<lparr>locked = False\<rparr>" "\<lparr>locked = True\<rparr>"]
    mutex_lock_exclusive [of "\<lparr>locked = True\<rparr>"]
  by (simp add: mutex_unlock_def)

section \<open>Facts about the scheduler\<close>

lemma run_task_eq:
  assumes "nat i < length (task_list s)"
  shows "run_task i now s =
    s\<lparr>task_list := (task_list s)[nat i := (task_list s ! nat i)\<lparr>last_run := now, state := TASK_READY\<rparr>],
      invoked := invoked s @ [(i, func (task_list s ! nat i), param (task_list s ! nat i))]\<rparr>"
  using assms by (simp add: run_task_def task_update_def invoke_def)

lemma priority_loop_index:
  "fst (priority_loop now tasks idxs (b, hp)) = b \<or>
   (\<exists>i \<in> set idxs. fst (priority_loop now tasks idxs (b, hp)) = int i \<and> eligible now (tasks ! i))"
proof (induction idxs arbitrary: b hp)
  case Nil
  then show ?case by simp
next
  case (Cons i idxs)
  show ?case
  proof (cases "eligible now (tasks ! i) \<and> priority (tasks ! i) < hp")
    case True
    then show ?thesis using Cons.IH [of "int i" "priority (tasks ! i)"] by auto
  next
    case False
    then show ?thesis using Cons.IH [of b hp] by auto
  qed
qed

lemma highest_priority_task_range:
  "highest_priority_task now s = - 1 \<or>
   (0 \<le> highest_priority_task now s \<and> highest_priority_task now s < task_count s \<and>
    eligible now (task_list s ! nat (highest_priority_task now s)))"
  using priority_loop_index [of now "task_list s" "[0..<nat (task_count s)]" "- 1" INT_MAX]
  by (auto simp add: highest_priority_task_def)

lemma task_all_fields:
  "(t::task_t)\<lparr>func := f, param := p, interval_ms := ival, last_run := lr, state := st,
       priority := prio\<rparr> =
   \<lparr>func = f, param = p, interval_ms = ival, last_run = lr, state = st, priority = prio\<rparr>"
  by (cases t) simp

lemma one_task_1000_eq:
  "one_task_1000 =
     \<lparr>task_list = [\<lparr>func = 1, param = 0, interval_ms = 0, last_run = 0, state = TASK_READY,
                     priority = 1000\<rparr>, zero_task, zero_task, zero_task, zero_task],
      task_count = 1, scheduler_type = SCHEDULER_PRIORITY, current_task_rr = 0,
      current_task = - 1, invoked = [], warnings = []\<rparr>"
  by (simp add: one_task_1000_def sched_init_def scheduler_add_task_def scheduler_setup_def
      MAX_TASKS_def eval_nat_numeral)

lemma five_tasks_eq:
  "five_tasks =
     \<lparr>task_list =
        [\<lparr>func = 1, param = 0, interval_ms = 1000, last_run = 0, state = TASK_READY, priority = 2\<rparr>,
         \<lparr>func = 2, param = 0, interval_ms = 1500, last_run = 0, state = TASK_READY, priority = 1\<rparr>,
         \<lparr>func = 3, param = 0, interval_ms = 2000, last_run = 0, state = TASK_READY, priority = 3\<rparr>,
         \<lparr>func = 4, param = 0, interval_ms = 2500, last_run = 0, state = TASK_READY, priority = 4\<rparr>,
         \<lparr>func = 5, param = 0, interval_ms = 3000, last_run = 0, state = TASK_READY, priority = 5\<rparr>],
      task_count = 5, scheduler_type = SCHEDULER_RR, current_task_rr = 0,
      current_task = - 1, invoked = [], warnings = []\<rparr>"
  by (simp add: five_tasks_def sched_init_def scheduler_add_task_def MAX_TASKS_def
      eval_nat_numeral zero_task_def)

text \<open>
  C1. The claim fails on the code where a priority is 999 or more. The running minimum
  starts at the program's own \<open>INT_MAX\<close>, which line 14 defines as 999, and a task is
  taken only when its priority is strictly below the minimum. Here the registry holds
  one task, of priority 1000, and the task is eligible; the tick selects no task and
  calls nothing.
\<close>

theorem priority_tick_skips_priority_1000:
  "task_count one_task_1000 = 1 \<and>
   scheduler_type one_task_1000 = SCHEDULER_PRIORITY \<and>
   priority (task_list one_task_1000 ! 0) = 1000 \<and>
   eligible 5 (task_list one_task_1000 ! 0) \<and>
   highest_priority_task 5 one_task_1000 = - 1 \<and>
   scheduler_run 5 one_task_1000 = one_task_1000 \<and>
   invoked (scheduler_run 5 one_task_1000) = []"
  by (simp add: one_task_1000_eq eligible_def highest_priority_task_def scheduler_run_def
      INT_MAX_def)

text \<open>
  C4. On a registry of 5 entries \<open>scheduler_add_task\<close> changes nothing but the warning
  log, to which it adds ``Max tasks reached'': the tasks and the count are as before.
  On a registry of fewer than 5 entries it sets the next slot to the new task, Ready and
  with \<open>last_run = 0\<close>, leaves the other slots alone, adds one to the count and logs
  nothing.
\<close>

theorem scheduler_add_task_capacity:
  "(task_count s = 5 \<longrightarrow>
      scheduler_add_task f p ival prio s =
        s\<lparr>warnings := warnings s @ [(''Scheduler'', ''Max tasks reached'')]\<rparr> \<and>
      task_list (scheduler_add_task f p ival prio s) = task_list s \<and>
      task_count (scheduler_add_task f p ival prio s) = 5) \<and>
   (0 \<le> task_count s \<and> task_count s < 5 \<and> length (task_list s) = 5 \<longrightarrow>
      task_count (scheduler_add_task f p ival prio s) = task_count s + 1 \<and>
      task_list (scheduler_add_task f p ival prio s) ! nat (task_count s) =
        \<lparr>func = f, param = p, interval_ms = ival, last_run = 0, state = TASK_READY,
         priority = prio\<rparr> \<and>
      (\<forall>j. j \<noteq> nat (task_count s) \<longrightarrow>
         task_list (scheduler_add_task f p ival prio s) ! j = task_list s ! j) \<and>
      length (task_list (scheduler_add_task f p ival prio s)) = 5 \<and>
      warnings (scheduler_add_task f p ival prio s) = warnings s \<and>
      invoked (scheduler_add_task f p ival prio s) = invoked s)"
proof -
  have "nat (task_count s) < length (task_list s)"
    if "0 \<le> task_count s" "task_count s < 5" "length (task_list s) = 5"
    using that by simp
  then show ?thesis
    by (simp add: scheduler_add_task_def MAX_TASKS_def task_all_fields)
qed

theorem scheduler_add_task_capacity_witness:
  "task_count five_tasks = 5 \<and>
   scheduler_add_task 6 0 500 0 five_tasks =
     five_tasks\<lparr>warnings := [(''Scheduler'', ''Max tasks reached'')]\<rparr> \<and>
   task_list (scheduler_add_task 6 0 500 0 five_tasks) = task_list five_tasks \<and>
   task_count sched_init = 0 \<and> length (task_list sched_init) = 5 \<and>
   task_count (scheduler_add_task 6 0 500 0 sched_init) = 1 \<and>
   task_list (scheduler_add_task 6 0 500 0 sched_init) ! 0 =
     \<lparr>func = 6, param = 0, interval_ms = 500, last_run = 0, state = TASK_READY, priority = 0\<rparr>"
proof -
  have a: "task_count five_tasks = 5" "warnings five_tasks = []"
    by (simp_all add: five_tasks_eq)
  have b: "task_count sched_init = 0" "length (task_list sched_init) = 5"
    by (simp_all add: sched_init_def)
  show ?thesis
    using scheduler_add_task_capacity [of five_tasks 6 0 500 0]
      scheduler_add_task_capacity [of sched_init 6 0 500 0] a b
    by simp
qed

lemma fcfs_loop_none:
  "\<forall>j \<in> set idxs. \<not> eligible now (task_list s ! j) \<Longrightarrow> fcfs_loop now idxs s = s"
  by (induction idxs) simp_all

lemma fcfs_loop_first:
  assumes "\<forall>j \<in> set pre. \<not> eligible now (task_list s ! j)" "eligible now (task_list s ! i)"
  shows "fcfs_loop now (pre @ i # post) s = run_task (int i) now s"
  using assms by (induction pre) simp_all

lemma upt_split: "i < n \<Longrightarrow> [0..<n] = [0..<i] @ i # [Suc i..<n]"
proof -
  assume i: "i < n"
  have "[0..<i + (n - i)] = [0..<i] @ [i..<i + (n - i)]"
    by (rule upt_add_eq_append) simp
  then show ?thesis using i by (simp add: upt_conv_Cons)
qed

lemma fcfs_loop_upt_first:
  assumes "i < n" "eligible now (task_list s ! i)" "\<forall>j<i. \<not> eligible now (task_list s ! j)"
  shows "fcfs_loop now [0..<n] s = run_task (int i) now s"
proof -
  have "\<forall>j \<in> set [0..<i]. \<not> eligible now (task_list s ! j)" using assms(3) by simp
  then have "fcfs_loop now ([0..<i] @ i # [Suc i..<n]) s = run_task (int i) now s"
    using assms(2) by (rule fcfs_loop_first)
  then show ?thesis using upt_split [OF assms(1)] by simp
qed

lemma fcfs_loop_cases:
  "fcfs_loop now idxs s = s \<or>
   (\<exists>j \<in> set idxs. eligible now (task_list s ! j) \<and> fcfs_loop now idxs s = run_task (int j) now s)"
  by (induction idxs) auto

text \<open>Whatever the policy, a tick runs at most one task, an eligible one, and beside
  that changes only the round-robin cursor.\<close>

lemma scheduler_run_cases:
  assumes "sched_inv s"
  shows "\<exists>s1. (s1 = s \<or>
          (\<exists>j. 0 \<le> j \<and> j < task_count s \<and> eligible now (task_list s ! nat j) \<and>
               (scheduler_type s = SCHEDULER_RR \<longrightarrow> j = current_task_rr s) \<and>
               s1 = run_task j now s)) \<and>
        (scheduler_run now s = s1 \<or>
         scheduler_type s = SCHEDULER_RR \<and> task_count s \<noteq> 0 \<and>
         scheduler_run now s =
           s1\<lparr>current_task_rr := c_rem (current_task_rr s1 + 1) (task_count s1)\<rparr>)"
proof (cases "scheduler_type s")
  case SCHEDULER_RR
  show ?thesis
  proof (cases "task_count s = 0")
    case True
    then have "scheduler_run now s = s" using SCHEDULER_RR by (simp add: scheduler_run_def)
    then show ?thesis by blast
  next
    case False
    then have c: "0 \<le> current_task_rr s" "current_task_rr s < task_count s"
      using assms by (auto simp add: sched_inv_def)
    show ?thesis
    proof (cases "eligible now (task_list s ! nat (current_task_rr s))")
      case True
      let ?s1 = "run_task (current_task_rr s) now s"
      have "scheduler_run now s =
          ?s1\<lparr>current_task_rr := c_rem (current_task_rr ?s1 + 1) (task_count ?s1)\<rparr>"
        using SCHEDULER_RR False True by (simp add: scheduler_run_def Let_def)
      then show ?thesis using c True SCHEDULER_RR False by blast
    next
      case ne: False
      have "scheduler_run now s =
          s\<lparr>current_task_rr := c_rem (current_task_rr s + 1) (task_count s)\<rparr>"
        using SCHEDULER_RR False ne by (simp add: scheduler_run_def Let_def)
      then show ?thesis using SCHEDULER_RR False by blast
    qed
  qed
next
  case SCHEDULER_FCFS
  then have r: "scheduler_run now s = fcfs_loop now [0..<nat (task_count s)] s"
    by (simp add: scheduler_run_def)
  from fcfs_loop_cases [of now "[0..<nat (task_count s)]" s]
  show ?thesis
  proof
    assume "fcfs_loop now [0..<nat (task_count s)] s = s"
    then show ?thesis using r by auto
  next
    assume "\<exists>j \<in> set [0..<nat (task_count s)]. eligible now (task_list s ! j) \<and>
        fcfs_loop now [0..<nat (task_count s)] s = run_task (int j) now s"
    then obtain j where j: "j < nat (task_count s)" "eligible now (task_list s ! j)"
      "fcfs_loop now [0..<nat (task_count s)] s = run_task (int j) now s" by auto
    have "0 \<le> int j \<and> int j < task_count s \<and> eligible now (task_list s ! nat (int j)) \<and>
        (scheduler_type s = SCHEDULER_RR \<longrightarrow> int j = current_task_rr s) \<and>
        run_task (int j) now s = run_task (int j) now s"
      using j SCHEDULER_FCFS by simp
    then show ?thesis using r j(3) by metis
  qed
next
  case SCHEDULER_PRIORITY
  then have r: "scheduler_run now s =
      (if highest_priority_task now s \<noteq> - 1
       then run_task (highest_priority_task now s) now s else s)"
    by (simp add: scheduler_run_def)
  show ?thesis
  proof (cases "highest_priority_task now s = - 1")
    case True
    then show ?thesis using r by auto
  next
    case False
    then have "0 \<le> highest_priority_task now s \<and> highest_priority_task now s < task_count s \<and>
        eligible now (task_list s ! nat (highest_priority_task now s)) \<and>
        (scheduler_type s = SCHEDULER_RR \<longrightarrow> highest_priority_task now s = current_task_rr s) \<and>
        run_task (highest_priority_task now s) now s = run_task (highest_priority_task now s) now s"
      using highest_priority_task_range [of now s] SCHEDULER_PRIORITY by simp
    then show ?thesis using r False by metis
  qed
next
  case SCHEDULER_PREEMPTIVE
  then have "scheduler_run now s = s" by (simp add: scheduler_run_def)
  then show ?thesis by blast
qed

lemma sched_inv_index:
  "sched_inv s \<Longrightarrow> 0 \<le> i \<Longrightarrow> i < task_count s \<Longrightarrow> nat i < length (task_list s)"
  unfolding sched_inv_def by linarith

lemma sched_step_terminated:
  assumes inv: "sched_inv s" and i: "0 \<le> i" "i < task_count s"
    and t: "state (task_list s ! nat i) = TASK_TERMINATED"
  shows "sched_inv (sched_step op s) \<and> task_count s \<le> task_count (sched_step op s) \<and>
         state (task_list (sched_step op s) ! nat i) = TASK_TERMINATED \<and>
         (\<exists>new. invoked (sched_step op s) = invoked s @ new \<and> (\<forall>e \<in> set new. fst e \<noteq> i))"
proof (cases op)
  case (Add f p ival prio)
  have "nat i \<noteq> nat (task_count s)" using i by simp
  then show ?thesis
    using inv i t Add by (auto simp add: scheduler_add_task_def MAX_TASKS_def sched_inv_def)
next
  case (Remove k)
  have "nat i < length (task_list s)" using inv i by (rule sched_inv_index)
  then show ?thesis
    using inv i t Remove
    by (cases "nat k = nat i")
       (auto simp add: scheduler_remove_task_def task_update_def sched_inv_def)
next
  case (Setup type)
  then show ?thesis
    using inv i t by (simp add: scheduler_setup_def sched_inv_def)
next
  case (Tick now)
  obtain s1 where s1: "s1 = s \<or>
          (\<exists>j. 0 \<le> j \<and> j < task_count s \<and> eligible now (task_list s ! nat j) \<and>
               (scheduler_type s = SCHEDULER_RR \<longrightarrow> j = current_task_rr s) \<and>
               s1 = run_task j now s)"
    and r: "scheduler_run now s = s1 \<or>
         scheduler_type s = SCHEDULER_RR \<and> task_count s \<noteq> 0 \<and>
         scheduler_run now s =
           s1\<lparr>current_task_rr := c_rem (current_task_rr s1 + 1) (task_count s1)\<rparr>"
    using scheduler_run_cases [OF inv, of now] by blast
  have p1: "sched_inv s1 \<and> task_count s1 = task_count s \<and>
         state (task_list s1 ! nat i) = TASK_TERMINATED \<and>
         (\<exists>new. invoked s1 = invoked s @ new \<and> (\<forall>e \<in> set new. fst e \<noteq> i))"
    using s1
  proof
    assume "s1 = s"
    then show ?thesis using inv t by simp
  next
    assume "\<exists>j. 0 \<le> j \<and> j < task_count s \<and> eligible now (task_list s ! nat j) \<and>
               (scheduler_type s = SCHEDULER_RR \<longrightarrow> j = current_task_rr s) \<and>
               s1 = run_task j now s"
    then obtain j where j: "0 \<le> j" "j < task_count s" "eligible now (task_list s ! nat j)"
      "s1 = run_task j now s" by blast
    have len: "nat j < length (task_list s)" using inv j(1,2) by (rule sched_inv_index)
    have ne: "j \<noteq> i" using j(3) t by (auto simp add: eligible_def)
    then have ne': "nat j \<noteq> nat i" using j(1) i(1) by simp
    show ?thesis
      using inv t ne ne' by (simp add: j(4) run_task_eq [OF len] sched_inv_def)
  qed
  from r show ?thesis
  proof
    assume "scheduler_run now s = s1"
    then show ?thesis using p1 Tick by simp
  next
    assume a: "scheduler_type s = SCHEDULER_RR \<and> task_count s \<noteq> 0 \<and>
         scheduler_run now s =
           s1\<lparr>current_task_rr := c_rem (current_task_rr s1 + 1) (task_count s1)\<rparr>"
    have tc: "0 < task_count s1" using a p1 inv by (simp add: sched_inv_def)
    have c0: "0 \<le> current_task_rr s1 + 1" using p1 by (simp add: sched_inv_def)
    have "c_rem (current_task_rr s1 + 1) (task_count s1) = (current_task_rr s1 + 1) mod task_count s1"
      using c0 tc by (rule c_rem_nonneg)
    then have "0 \<le> c_rem (current_task_rr s1 + 1) (task_count s1) \<and>
        c_rem (current_task_rr s1 + 1) (task_count s1) < task_count s1"
      using tc by simp
    then show ?thesis using p1 a Tick by (auto simp add: sched_inv_def)
  qed
qed

lemma sched_steps_terminated:
  assumes "sched_inv s" "0 \<le> i" "i < task_count s"
    "state (task_list s ! nat i) = TASK_TERMINATED"
  shows "sched_inv (sched_steps ops s) \<and> task_count s \<le> task_count (sched_steps ops s) \<and>
         state (task_list (sched_steps ops s) ! nat i) = TASK_TERMINATED \<and>
         (\<exists>new. invoked (sched_steps ops s) = invoked s @ new \<and> (\<forall>e \<in> set new. fst e \<noteq> i))"
  using assms
proof (induction ops arbitrary: s)
  case Nil
  then show ?case by simp
next
  case (Cons op ops)
  let ?s = "sched_step op s"
  have st: "sched_inv ?s \<and> task_count s \<le> task_count ?s \<and>
         state (task_list ?s ! nat i) = TASK_TERMINATED \<and>
         (\<exists>new. invoked ?s = invoked s @ new \<and> (\<forall>e \<in> set new. fst e \<noteq> i))"
    using Cons.prems by (rule sched_step_terminated)
  then have "i < task_count ?s" using Cons.prems(3) by simp
  with st Cons.prems(2)
  have "sched_inv (sched_steps ops ?s) \<and> task_count ?s \<le> task_count (sched_steps ops ?s) \<and>
         state (task_list (sched_steps ops ?s) ! nat i) = TASK_TERMINATED \<and>
         (\<exists>new. invoked (sched_steps ops ?s) = invoked ?s @ new \<and> (\<forall>e \<in> set new. fst e \<noteq> i))"
    by (intro Cons.IH) simp_all
  with st show ?case by auto
qed

lemma sched_inv_init: "sched_inv sched_init"
  by (simp add: sched_inv_def sched_init_def)

text \<open>
  Removal, and what the driver's calls alone do to a removed task.
  \<open>scheduler_remove_task\<close> on an index of the registry sets the state of that task to
  Terminated and changes nothing else; on any other index it changes nothing. Through a
  sequence of additions, removals, changes of policy and ticks in which no interrupt
  occurs, a task that is Terminated stays so, and none of the callbacks invoked meanwhile
  is invoked for it. The interrupt handler breaks this, as the last but one subsection
  of this theory shows.
\<close>

lemma terminated_is_permanent:
  assumes "sched_inv s"
  shows "(0 \<le> i \<and> i < task_count s \<longrightarrow>
            scheduler_remove_task i s =
              s\<lparr>task_list := (task_list s)[nat i := (task_list s ! nat i)\<lparr>state := TASK_TERMINATED\<rparr>]\<rparr> \<and>
            state (task_list (scheduler_remove_task i s) ! nat i) = TASK_TERMINATED) \<and>
         (i < 0 \<or> task_count s \<le> i \<longrightarrow> scheduler_remove_task i s = s) \<and>
         (0 \<le> i \<and> i < task_count s \<and> state (task_list s ! nat i) = TASK_TERMINATED \<longrightarrow>
            state (task_list (sched_steps ops s) ! nat i) = TASK_TERMINATED \<and>
            (\<forall>e \<in> set (drop (length (invoked s)) (invoked (sched_steps ops s))). fst e \<noteq> i))"
proof -
  have a: "scheduler_remove_task i s =
              s\<lparr>task_list := (task_list s)[nat i := (task_list s ! nat i)\<lparr>state := TASK_TERMINATED\<rparr>]\<rparr> \<and>
            state (task_list (scheduler_remove_task i s) ! nat i) = TASK_TERMINATED"
    if "0 \<le> i" "i < task_count s"
  proof -
    have "nat i < length (task_list s)" using assms that by (rule sched_inv_index)
    then show ?thesis using that by (simp add: scheduler_remove_task_def task_update_def)
  qed
  have b: "scheduler_remove_task i s = s" if "i < 0 \<or> task_count s \<le> i"
    using that by (auto simp add: scheduler_remove_task_def)
  have c: "state (task_list (sched_steps ops s) ! nat i) = TASK_TERMINATED \<and>
            (\<forall>e \<in> set (drop (length (invoked s)) (invoked (sched_steps ops s))). fst e \<noteq> i)"
    if "0 \<le> i" "i < task_count s" "state (task_list s ! nat i) = TASK_TERMINATED"
  proof -
    from sched_steps_terminated [OF assms that, of ops]
    obtain new where "state (task_list (sched_steps ops s) ! nat i) = TASK_TERMINATED"
      "invoked (sched_steps ops s) = invoked s @ new" "\<forall>e \<in> set new. fst e \<noteq> i"
      by blast
    then show ?thesis by simp
  qed
  from a b c show ?thesis by blast
qed

lemma five_tasks_removed_eq:
  "five_tasks_removed =
     \<lparr>task_list =
        [\<lparr>func = 1, param = 0, interval_ms = 1000, last_run = 0, state = TASK_READY, priority = 2\<rparr>,
         \<lparr>func = 2, param = 0, interval_ms = 1500, last_run = 0, state = TASK_TERMINATED, priority = 1\<rparr>,
         \<lparr>func = 3, param = 0, interval_ms = 2000, last_run = 0, state = TASK_READY, priority = 3\<rparr>,
         \<lparr>func = 4, param = 0, interval_ms = 2500, last_run = 0, state = TASK_READY, priority = 4\<rparr>,
         \<lparr>func = 5, param = 0, interval_ms = 3000, last_run = 0, state = TASK_READY, priority = 5\<rparr>],
      task_count = 5, scheduler_type = SCHEDULER_RR, current_task_rr = 0,
      current_task = - 1, invoked = [], warnings = []\<rparr>"
  by (simp add: five_tasks_removed_def five_tasks_eq scheduler_remove_task_def task_update_def)

lemma terminated_is_permanent_witness:
  "sched_inv five_tasks \<and> sched_inv five_tasks_removed \<and>
   scheduler_remove_task 1 five_tasks = five_tasks_removed \<and>
   scheduler_remove_task 5 five_tasks = five_tasks \<and>
   scheduler_remove_task (- 1) five_tasks = five_tasks \<and>
   state (task_list five_tasks_removed ! nat 1) = TASK_TERMINATED \<and>
   state (task_list (sched_steps [Tick 5000, Tick 5100, Setup SCHEDULER_PRIORITY, Tick 9000,
                                  Remove 1] five_tasks_removed) ! nat 1) = TASK_TERMINATED \<and>
   invoked (sched_steps [Tick 5000, Tick 5100, Setup SCHEDULER_PRIORITY, Tick 9000,
                         Remove 1] five_tasks_removed) = [(0, 1, 0), (0, 1, 0)]"
proof -
  have i: "sched_inv five_tasks" "sched_inv five_tasks_removed"
    by (simp_all add: sched_inv_def five_tasks_removed_eq five_tasks_eq)
  have r: "(0::int) \<le> 1" "1 < task_count five_tasks" "1 < task_count five_tasks_removed"
    "task_count five_tasks \<le> 5" "(- 1::int) < 0"
    "state (task_list five_tasks_removed ! nat 1) = TASK_TERMINATED"
    by (simp_all add: five_tasks_removed_eq five_tasks_eq)
  have e: "invoked (sched_steps [Tick 5000, Tick 5100, Setup SCHEDULER_PRIORITY, Tick 9000,
                         Remove 1] five_tasks_removed) = [(0, 1, 0), (0, 1, 0)]"
    by code_simp
  show ?thesis
    using terminated_is_permanent [OF i(1), of 1] terminated_is_permanent [OF i(1), of 5]
      terminated_is_permanent [OF i(1), of "- 1"]
      terminated_is_permanent [OF i(2), of 1
        "[Tick 5000, Tick 5100, Setup SCHEDULER_PRIORITY, Tick 9000, Remove 1]"]
      i r e
    by (simp add: five_tasks_removed_def)
qed

lemma timer_isr_same:
  "highest_priority_task now s = - 1 \<or> highest_priority_task now s = current_task s \<Longrightarrow>
   timer_isr now s = s"
  by (auto simp add: timer_isr_def)

lemma timer_isr_dispatch:
  assumes inv: "sched_inv s" and w: "highest_priority_task now s = w" "w \<noteq> - 1"
    "w \<noteq> current_task s"
  shows "current_task (timer_isr now s) = w \<and>
         state (task_list (timer_isr now s) ! nat w) = TASK_READY \<and>
         last_run (task_list (timer_isr now s) ! nat w) = now \<and>
         invoked (timer_isr now s) =
           invoked s @ [(w, func (task_list s ! nat w), param (task_list s ! nat w))] \<and>
         task_count (timer_isr now s) = task_count s \<and>
         sched_inv (timer_isr now s)"
proof -
  have rng: "0 \<le> w" "w < task_count s"
    using highest_priority_task_range [of now s] w by auto
  then have len: "nat w < length (task_list s)" using inv by (intro sched_inv_index)
  let ?s1 = "if current_task s \<noteq> - 1
             then task_update (current_task s) (\<lambda>t. t\<lparr>state := TASK_READY\<rparr>) s else s"
  let ?s2 = "?s1\<lparr>current_task := w\<rparr>"
  have isr: "timer_isr now s = run_task w now ?s2"
    using w by (simp add: timer_isr_def Let_def)
  have len2: "nat w < length (task_list ?s2)" using len by (simp add: task_update_def)
  have same: "task_list ?s2 ! nat w = task_list s ! nat w"
  proof (cases "current_task s = - 1")
    case True
    then show ?thesis by simp
  next
    case False
    then have "0 \<le> current_task s" using inv by (auto simp add: sched_inv_def)
    then have "nat (current_task s) \<noteq> nat w" using w(3) rng(1) by simp
    then show ?thesis by (simp add: task_update_def)
  qed
  have inv2: "sched_inv ?s2"
    using inv rng by (auto simp add: sched_inv_def task_update_def)
  show ?thesis
    unfolding isr run_task_eq [OF len2]
    using len2 same inv2 rng by (simp add: sched_inv_def task_update_def)
qed

lemma timer_isr_run_holder:
  "current_task s = i \<Longrightarrow> sole_winner i nows s \<Longrightarrow> timer_isr_run nows s = s"
proof (induction nows)
  case Nil
  then show ?case by simp
next
  case (Cons now nows)
  then have "timer_isr now s = s" by (intro timer_isr_same) auto
  with Cons show ?case by simp
qed

lemma timer_isr_run_once:
  assumes "sched_inv s" "sole_winner i nows s"
  shows "timer_isr_run nows s = s \<or>
         invoked (timer_isr_run nows s) =
           invoked s @ [(i, func (task_list s ! nat i), param (task_list s ! nat i))]"
  using assms
proof (induction nows)
  case Nil
  then show ?case by simp
next
  case (Cons now nows)
  show ?case
  proof (cases "highest_priority_task now s = - 1 \<or> highest_priority_task now s = current_task s")
    case True
    then have "timer_isr now s = s" by (rule timer_isr_same)
    with Cons show ?thesis by simp
  next
    case False
    then have w: "highest_priority_task now s = i" "i \<noteq> - 1" "i \<noteq> current_task s"
      using Cons.prems(2) by auto
    have d: "current_task (timer_isr now s) = i"
      "invoked (timer_isr now s) =
         invoked s @ [(i, func (task_list s ! nat i), param (task_list s ! nat i))]"
      using timer_isr_dispatch [OF Cons.prems(1) w] by simp_all
    have "sole_winner i nows (timer_isr now s)" using Cons.prems(2) by simp
    with d(1) have "timer_isr_run nows (timer_isr now s) = timer_isr now s"
      by (rule timer_isr_run_holder)
    then show ?thesis using d(2) by simp
  qed
qed

text \<open>
  C10. The interrupt handler dispatches the task its selection loop found only when that
  task is not \<open>current_task\<close>; a dispatch of task \<open>i\<close> leaves \<open>current_task = i\<close>, the task
  Ready, and one more callback invoked. So when the loop finds the same task \<open>i\<close> at two
  consecutive invocations, the second changes nothing and invokes nothing; and over any
  number of invocations at which the loop finds task \<open>i\<close> or no task, either nothing
  changes or the callback of task \<open>i\<close> is the one callback invoked.
\<close>

theorem timer_isr_same_winner_once:
  assumes "sched_inv s"
  shows "(highest_priority_task now s = - 1 \<or> highest_priority_task now s = current_task s \<longrightarrow>
            timer_isr now s = s) \<and>
         (highest_priority_task now s = i \<and> i \<noteq> - 1 \<and> i \<noteq> current_task s \<longrightarrow>
            current_task (timer_isr now s) = i \<and>
            state (task_list (timer_isr now s) ! nat i) = TASK_READY \<and>
            invoked (timer_isr now s) =
              invoked s @ [(i, func (task_list s ! nat i), param (task_list s ! nat i))]) \<and>
         (highest_priority_task now s = i \<and> i \<noteq> - 1 \<and>
          highest_priority_task now' (timer_isr now s) = i \<longrightarrow>
            timer_isr now' (timer_isr now s) = timer_isr now s) \<and>
         (sole_winner i nows s \<longrightarrow>
            timer_isr_run nows s = s \<or>
            invoked (timer_isr_run nows s) =
              invoked s @ [(i, func (task_list s ! nat i), param (task_list s ! nat i))])"
proof -
  have a: "timer_isr now s = s"
    if "highest_priority_task now s = - 1 \<or> highest_priority_task now s = current_task s"
    using that by (rule timer_isr_same)
  have b: "current_task (timer_isr now s) = i \<and>
            state (task_list (timer_isr now s) ! nat i) = TASK_READY \<and>
            invoked (timer_isr now s) =
              invoked s @ [(i, func (task_list s ! nat i), param (task_list s ! nat i))]"
    if "highest_priority_task now s = i" "i \<noteq> - 1" "i \<noteq> current_task s"
    using timer_isr_dispatch [OF assms that] by simp
  have c: "timer_isr now' (timer_isr now s) = timer_isr now s"
    if w: "highest_priority_task now s = i" "i \<noteq> - 1"
      and w': "highest_priority_task now' (timer_isr now s) = i"
  proof -
    have "current_task (timer_isr now s) = i"
    proof (cases "i = current_task s")
      case True
      then show ?thesis using a w(1) by simp
    next
      case False
      then show ?thesis using b w by simp
    qed
    then show ?thesis using w' by (intro timer_isr_same) simp
  qed
  have d: "timer_isr_run nows s = s \<or>
            invoked (timer_isr_run nows s) =
              invoked s @ [(i, func (task_list s ! nat i), param (task_list s ! nat i))]"
    if "sole_winner i nows s"
    using assms that by (rule timer_isr_run_once)
  from a b c d show ?thesis by blast
qed

lemma two_tasks_preemptive_eq:
  "two_tasks_preemptive =
     \<lparr>task_list =
        [\<lparr>func = 1, param = 0, interval_ms = 0, last_run = 0, state = TASK_READY, priority = 1\<rparr>,
         \<lparr>func = 2, param = 0, interval_ms = 0, last_run = 0, state = TASK_READY, priority = 2\<rparr>,
         zero_task, zero_task, zero_task],
      task_count = 2, scheduler_type = SCHEDULER_PREEMPTIVE, current_task_rr = 0,
      current_task = - 1, invoked = [], warnings = []\<rparr>"
  by (simp add: two_tasks_preemptive_def sched_init_def scheduler_add_task_def
      scheduler_setup_def MAX_TASKS_def eval_nat_numeral)

theorem timer_isr_same_winner_once_witness:
  "sched_inv two_tasks_preemptive \<and>
   highest_priority_task 5 two_tasks_preemptive = 0 \<and>
   current_task two_tasks_preemptive = - 1 \<and>
   current_task (timer_isr 5 two_tasks_preemptive) = 0 \<and>
   invoked (timer_isr 5 two_tasks_preemptive) = [(0, 1, 0)] \<and>
   highest_priority_task 6 (timer_isr 5 two_tasks_preemptive) = 0 \<and>
   eligible 6 (task_list (timer_isr 5 two_tasks_preemptive) ! 0) \<and>
   timer_isr 6 (timer_isr 5 two_tasks_preemptive) = timer_isr 5 two_tasks_preemptive \<and>
   sole_winner 0 [5, 6, 7, 8] two_tasks_preemptive \<and>
   invoked (timer_isr_run [5, 6, 7, 8] two_tasks_preemptive) = [(0, 1, 0)]"
proof -
  have i: "sched_inv two_tasks_preemptive"
    by (simp add: sched_inv_def two_tasks_preemptive_eq)
  have h: "highest_priority_task 5 two_tasks_preemptive = 0"
    "current_task two_tasks_preemptive = - 1"
    "highest_priority_task 6 (timer_isr 5 two_tasks_preemptive) = 0"
    "eligible 6 (task_list (timer_isr 5 two_tasks_preemptive) ! 0)"
    "sole_winner 0 [5, 6, 7, 8] two_tasks_preemptive"
    "invoked two_tasks_preemptive = []"
    "func (task_list two_tasks_preemptive ! nat 0) = 1"
    "param (task_list two_tasks_preemptive ! nat 0) = 0"
    "timer_isr_run [5, 6, 7, 8] two_tasks_preemptive \<noteq> two_tasks_preemptive"
    by code_simp+
  show ?thesis
    using timer_isr_same_winner_once [OF i, of 5 0 6 "[5, 6, 7, 8]"] i h
    by (simp del: sole_winner.simps timer_isr_run.simps)
qed

text \<open>
  C6. As stated the claim fails where the first task is due again at the second tick.
  Here A and B have interval 0; both ticks run A, and B, due at both, is not run.
\<close>

theorem fcfs_second_tick_counterexample:
  "scheduler_type two_tasks_fcfs = SCHEDULER_FCFS \<and>
   eligible 5 (task_list two_tasks_fcfs ! 0) \<and>
   eligible 5 (task_list two_tasks_fcfs ! 1) \<and>
   invoked (scheduler_run 5 two_tasks_fcfs) = [(0, 1, 0)] \<and>
   eligible 6 (task_list (scheduler_run 5 two_tasks_fcfs) ! 1) \<and>
   invoked (scheduler_run 6 (scheduler_run 5 two_tasks_fcfs)) = [(0, 1, 0), (0, 1, 0)]"
  by code_simp

lemma sched_inv_nat_index:
  "sched_inv s \<Longrightarrow> i < nat (task_count s) \<Longrightarrow> i < length (task_list s)"
  unfolding sched_inv_def by linarith

lemma fcfs_tick_first:
  assumes inv: "sched_inv s" and fcfs: "scheduler_type s = SCHEDULER_FCFS"
    and i: "i < nat (task_count s)" "eligible now (task_list s ! i)"
      "\<forall>j<i. \<not> eligible now (task_list s ! j)"
  shows "scheduler_run now s =
     s\<lparr>task_list := (task_list s)[i := (task_list s ! i)\<lparr>last_run := now, state := TASK_READY\<rparr>],
       invoked := invoked s @ [(int i, func (task_list s ! i), param (task_list s ! i))]\<rparr>"
proof -
  have "nat (int i) < length (task_list s)" using sched_inv_nat_index [OF inv i(1)] by simp
  then have "run_task (int i) now s =
     s\<lparr>task_list := (task_list s)[i := (task_list s ! i)\<lparr>last_run := now, state := TASK_READY\<rparr>],
       invoked := invoked s @ [(int i, func (task_list s ! i), param (task_list s ! i))]\<rparr>"
    by (simp add: run_task_eq)
  moreover have "scheduler_run now s = run_task (int i) now s"
    using fcfs fcfs_loop_upt_first [OF i] by (simp add: scheduler_run_def)
  ultimately show ?thesis by simp
qed

text \<open>
  C6, amended. Under the first-come-first-served policy a tick changes nothing when no
  task is eligible; otherwise it runs the first eligible task in registration order and
  nothing else: one callback is invoked, and every other task is as before. With A and
  B the first two tasks, A due at the first tick, B due at the second, and A, having
  run at the first, not due again at the second, the first tick runs only A and the
  second runs B.
\<close>

theorem fcfs_first_eligible:
  assumes "sched_inv s" "scheduler_type s = SCHEDULER_FCFS"
  shows "((\<forall>j < nat (task_count s). \<not> eligible now (task_list s ! j)) \<longrightarrow>
            scheduler_run now s = s) \<and>
         (i < nat (task_count s) \<and> eligible now (task_list s ! i) \<and>
          (\<forall>j<i. \<not> eligible now (task_list s ! j)) \<longrightarrow>
            scheduler_run now s =
              s\<lparr>task_list := (task_list s)[i := (task_list s ! i)\<lparr>last_run := now, state := TASK_READY\<rparr>],
                invoked := invoked s @ [(int i, func (task_list s ! i), param (task_list s ! i))]\<rparr>) \<and>
         (2 \<le> task_count s \<and> eligible now (task_list s ! 0) \<and> eligible now' (task_list s ! 1) \<and>
          \<not> eligible now' ((task_list s ! 0)\<lparr>last_run := now, state := TASK_READY\<rparr>) \<longrightarrow>
            invoked (scheduler_run now s) =
              invoked s @ [(0, func (task_list s ! 0), param (task_list s ! 0))] \<and>
            invoked (scheduler_run now' (scheduler_run now s)) =
              invoked s @ [(0, func (task_list s ! 0), param (task_list s ! 0)),
                           (1, func (task_list s ! 1), param (task_list s ! 1))])"
proof -
  have a: "scheduler_run now s = s"
    if "\<forall>j < nat (task_count s). \<not> eligible now (task_list s ! j)"
    using that assms(2) by (simp add: scheduler_run_def fcfs_loop_none)
  have b: "scheduler_run now s =
              s\<lparr>task_list := (task_list s)[i := (task_list s ! i)\<lparr>last_run := now, state := TASK_READY\<rparr>],
                invoked := invoked s @ [(int i, func (task_list s ! i), param (task_list s ! i))]\<rparr>"
    if "i < nat (task_count s)" "eligible now (task_list s ! i)"
      "\<forall>j<i. \<not> eligible now (task_list s ! j)"
    using assms that by (rule fcfs_tick_first)
  have c: "invoked (scheduler_run now s) =
              invoked s @ [(0, func (task_list s ! 0), param (task_list s ! 0))] \<and>
            invoked (scheduler_run now' (scheduler_run now s)) =
              invoked s @ [(0, func (task_list s ! 0), param (task_list s ! 0)),
                           (1, func (task_list s ! 1), param (task_list s ! 1))]"
    if tc: "2 \<le> task_count s" and e0: "eligible now (task_list s ! 0)"
      and e1: "eligible now' (task_list s ! 1)"
      and n0: "\<not> eligible now' ((task_list s ! 0)\<lparr>last_run := now, state := TASK_READY\<rparr>)"
  proof -
    let ?s1 = "s\<lparr>task_list := (task_list s)[0 := (task_list s ! 0)\<lparr>last_run := now, state := TASK_READY\<rparr>],
                invoked := invoked s @ [(0, func (task_list s ! 0), param (task_list s ! 0))]\<rparr>"
    have len: "length (task_list s) = 5" using assms(1) by (simp add: sched_inv_def)
    have "0 < nat (task_count s)" using tc by simp
    then have r1: "scheduler_run now s = ?s1"
      using fcfs_tick_first [OF assms, of 0 now] e0 by simp
    have inv1: "sched_inv ?s1" using assms(1) by (simp add: sched_inv_def)
    have f1: "scheduler_type ?s1 = SCHEDULER_FCFS" using assms(2) by simp
    have i1: "1 < nat (task_count ?s1)" using tc by simp
    have el: "eligible now' (task_list ?s1 ! 1)" using e1 by simp
    have nl: "\<forall>j<1. \<not> eligible now' (task_list ?s1 ! j)" using n0 len by simp
    have "scheduler_run now' ?s1 =
        ?s1\<lparr>task_list := (task_list ?s1)[1 := (task_list ?s1 ! 1)\<lparr>last_run := now', state := TASK_READY\<rparr>],
          invoked := invoked ?s1 @ [(int 1, func (task_list ?s1 ! 1), param (task_list ?s1 ! 1))]\<rparr>"
      using inv1 f1 i1 el nl by (rule fcfs_tick_first)
    then show ?thesis unfolding r1 by simp
  qed
  from a b c show ?thesis by blast
qed

lemma fcfs_removed_eq:
  "fcfs_removed =
     \<lparr>task_list =
        [\<lparr>func = 1, param = 0, interval_ms = 1000, last_run = 2000, state = TASK_READY, priority = 2\<rparr>,
         \<lparr>func = 2, param = 0, interval_ms = 1500, last_run = 0, state = TASK_TERMINATED, priority = 1\<rparr>,
         \<lparr>func = 3, param = 0, interval_ms = 2000, last_run = 0, state = TASK_READY, priority = 3\<rparr>,
         \<lparr>func = 4, param = 0, interval_ms = 2500, last_run = 0, state = TASK_READY, priority = 4\<rparr>,
         \<lparr>func = 5, param = 0, interval_ms = 3000, last_run = 0, state = TASK_READY, priority = 5\<rparr>],
      task_count = 5, scheduler_type = SCHEDULER_FCFS, current_task_rr = 0,
      current_task = - 1, invoked = [(0, 1, 0)], warnings = []\<rparr>"
  by code_simp

theorem fcfs_first_eligible_witness:
  "sched_inv fcfs_five \<and> scheduler_type fcfs_five = SCHEDULER_FCFS \<and>
   scheduler_run 500 fcfs_five = fcfs_five \<and>
   sched_inv fcfs_removed \<and> scheduler_type fcfs_removed = SCHEDULER_FCFS \<and>
   eligible 2100 (task_list fcfs_removed ! 2) \<and> \<not> eligible 2100 (task_list fcfs_removed ! 1) \<and>
   \<not> eligible 2100 (task_list fcfs_removed ! 0) \<and>
   invoked (scheduler_run 2100 fcfs_removed) = [(0, 1, 0), (2, 3, 0)] \<and>
   eligible 2000 (task_list fcfs_five ! 0) \<and> eligible 2100 (task_list fcfs_five ! 1) \<and>
   \<not> eligible 2100 ((task_list fcfs_five ! 0)\<lparr>last_run := 2000, state := TASK_READY\<rparr>) \<and>
   invoked (scheduler_run 2100 (scheduler_run 2000 fcfs_five)) = [(0, 1, 0), (1, 2, 0)]"
proof -
  have r: "sched_inv fcfs_removed" "scheduler_type fcfs_removed = SCHEDULER_FCFS"
    "2 < nat (task_count fcfs_removed)" "invoked fcfs_removed = [(0, 1, 0)]"
    "eligible 2100 (task_list fcfs_removed ! 2)" "\<not> eligible 2100 (task_list fcfs_removed ! 1)"
    "\<not> eligible 2100 (task_list fcfs_removed ! 0)"
    "func (task_list fcfs_removed ! 2) = 3" "param (task_list fcfs_removed ! 2) = 0"
    by (simp_all add: fcfs_removed_eq sched_inv_def eligible_def)
  have l: "\<forall>j<2. \<not> eligible 2100 (task_list fcfs_removed ! j)"
    using r(6,7) by (auto dest: less_2_cases)
  have f: "sched_inv fcfs_five" "scheduler_type fcfs_five = SCHEDULER_FCFS"
    "2 \<le> task_count fcfs_five" "invoked fcfs_five = []"
    "eligible 2000 (task_list fcfs_five ! 0)" "eligible 2100 (task_list fcfs_five ! 1)"
    "\<not> eligible 2100 ((task_list fcfs_five ! 0)\<lparr>last_run := 2000, state := TASK_READY\<rparr>)"
    "func (task_list fcfs_five ! 0) = 1" "param (task_list fcfs_five ! 0) = 0"
    "func (task_list fcfs_five ! 1) = 2" "param (task_list fcfs_five ! 1) = 0"
    by (simp_all add: fcfs_five_def five_tasks_eq scheduler_setup_def sched_inv_def
        eligible_def)
  have n: "\<forall>j<nat (task_count fcfs_five). \<not> eligible 500 (task_list fcfs_five ! j)"
  proof (intro allI impI)
    fix j assume "j < nat (task_count fcfs_five)"
    then have "j < 5" by (simp add: fcfs_five_def five_tasks_eq scheduler_setup_def)
    then consider "j = 0" | "j = 1" | "j = 2" | "j = 3" | "j = 4" by linarith
    then show "\<not> eligible 500 (task_list fcfs_five ! j)"
      by cases (simp_all add: fcfs_five_def five_tasks_eq scheduler_setup_def eligible_def)
  qed
  show ?thesis
    using fcfs_first_eligible [OF f(1,2), of 500] fcfs_first_eligible [OF r(1,2), of 2100 2]
      fcfs_first_eligible [OF f(1,2), of 2000 _ 2100] r n l f
    by simp
qed

lemma eligible_mono:
  assumes "eligible n t" "last_run t \<le> n" "n \<le> n'"
  shows "eligible n' t"
proof -
  have l': "last_run t \<le> n'" using assms(2,3) by simp
  have "unat (n - last_run t) = unat n - unat (last_run t)"
    using assms(2) by (rule unat_sub)
  moreover have "unat (n' - last_run t) = unat n' - unat (last_run t)"
    using l' by (rule unat_sub)
  moreover have "unat n \<le> unat n'" using assms(3) by (simp add: word_le_nat_alt)
  ultimately have "n - last_run t \<le> n' - last_run t"
    by (simp add: word_le_nat_alt)
  then show ?thesis using assms(1) by (auto simp add: eligible_def)
qed

lemma rr_tick:
  assumes inv: "sched_inv s" and rr: "scheduler_type s = SCHEDULER_RR" and tc: "0 < task_count s"
  shows "scheduler_run now s =
     (if eligible now (task_list s ! nat (current_task_rr s))
      then s\<lparr>task_list := (task_list s)[nat (current_task_rr s) :=
                 (task_list s ! nat (current_task_rr s))\<lparr>last_run := now, state := TASK_READY\<rparr>],
             invoked := invoked s @ [(current_task_rr s,
                 func (task_list s ! nat (current_task_rr s)),
                 param (task_list s ! nat (current_task_rr s)))],
             current_task_rr := (current_task_rr s + 1) mod task_count s\<rparr>
      else s\<lparr>current_task_rr := (current_task_rr s + 1) mod task_count s\<rparr>)"
proof -
  have c: "0 \<le> current_task_rr s" "current_task_rr s < task_count s"
    using inv tc by (auto simp add: sched_inv_def)
  then have len: "nat (current_task_rr s) < length (task_list s)"
    using inv by (intro sched_inv_index)
  have m: "c_rem (current_task_rr s + 1) (task_count s) = (current_task_rr s + 1) mod task_count s"
    using c(1) tc by (intro c_rem_nonneg) simp_all
  show ?thesis
    using rr tc m by (simp add: scheduler_run_def Let_def run_task_eq [OF len])
qed

lemma rr_tick_eligible:
  assumes inv: "sched_inv s" and rr: "scheduler_type s = SCHEDULER_RR" and tc: "0 < task_count s"
    and e: "eligible now (task_list s ! nat (current_task_rr s))"
  shows "sched_inv (scheduler_run now s) \<and>
         scheduler_type (scheduler_run now s) = SCHEDULER_RR \<and>
         task_count (scheduler_run now s) = task_count s \<and>
         current_task_rr (scheduler_run now s) = (current_task_rr s + 1) mod task_count s \<and>
         invoked (scheduler_run now s) =
           invoked s @ [(current_task_rr s, func (task_list s ! nat (current_task_rr s)),
                         param (task_list s ! nat (current_task_rr s)))] \<and>
         (\<forall>k. k \<noteq> nat (current_task_rr s) \<longrightarrow>
              task_list (scheduler_run now s) ! k = task_list s ! k)"
proof -
  have "0 \<le> (current_task_rr s + 1) mod task_count s"
    "(current_task_rr s + 1) mod task_count s < task_count s"
    using tc by simp_all
  then show ?thesis
    using inv rr e unfolding rr_tick [OF inv rr tc] by (simp add: sched_inv_def)
qed

lemma rr_three_ticks:
  assumes inv: "sched_inv s" and rr: "scheduler_type s = SCHEDULER_RR"
    and tc: "task_count s = 3"
    and due: "\<forall>k<3. eligible n0 (task_list s ! k) \<and> last_run (task_list s ! k) \<le> n0"
    and mono: "n0 \<le> n1" "n1 \<le> n2"
    and c: "current_task_rr s = c" "c1 = (c + 1) mod 3" "c2 = (c + 2) mod 3"
  shows "invoked (scheduler_run n2 (scheduler_run n1 (scheduler_run n0 s))) =
           invoked s @ [(c, func (task_list s ! nat c), param (task_list s ! nat c)),
                        (c1, func (task_list s ! nat c1), param (task_list s ! nat c1)),
                        (c2, func (task_list s ! nat c2), param (task_list s ! nat c2))] \<and>
         current_task_rr (scheduler_run n2 (scheduler_run n1 (scheduler_run n0 s))) = c"
proof -
  have rng: "0 \<le> c" "c < 3" using inv tc c(1) by (auto simp add: sched_inv_def)
  then have d: "c = 0 \<or> c = 1 \<or> c = 2" by linarith
  have ar: "0 \<le> c1" "c1 < 3" "0 \<le> c2" "c2 < 3" "nat c1 \<noteq> nat c" "nat c2 \<noteq> nat c"
    "nat c2 \<noteq> nat c1" "(c1 + 1) mod 3 = c2" "(c2 + 1) mod 3 = c"
    using d by (auto simp add: c(2,3))
  have el: "eligible n (task_list s ! nat k)" if "0 \<le> k" "k < 3" "n0 \<le> n" for k n
  proof -
    have "nat k < 3" using that(1,2) by simp
    then have "eligible n0 (task_list s ! nat k)" "last_run (task_list s ! nat k) \<le> n0"
      using due by simp_all
    then show ?thesis using that(3) by (rule eligible_mono)
  qed
  let ?s1 = "scheduler_run n0 s"
  have e0: "eligible n0 (task_list s ! nat (current_task_rr s))"
    using el [OF rng, of n0] c(1) by simp
  have t0: "0 < task_count s" using tc by simp
  note f1 = rr_tick_eligible [OF inv rr t0 e0]
  have s1: "sched_inv ?s1" "scheduler_type ?s1 = SCHEDULER_RR" "0 < task_count ?s1"
    "task_count ?s1 = 3" "current_task_rr ?s1 = c1"
    "task_list ?s1 ! nat c1 = task_list s ! nat c1" "task_list ?s1 ! nat c2 = task_list s ! nat c2"
    "invoked ?s1 = invoked s @ [(c, func (task_list s ! nat c), param (task_list s ! nat c))]"
    using f1 tc c(1,2) ar(5,6) by simp_all
  let ?s2 = "scheduler_run n1 ?s1"
  have e1: "eligible n1 (task_list ?s1 ! nat (current_task_rr ?s1))"
    using el [OF ar(1,2) mono(1)] s1(5,6) by simp
  note f2 = rr_tick_eligible [OF s1(1,2,3) e1]
  have s2: "sched_inv ?s2" "scheduler_type ?s2 = SCHEDULER_RR" "0 < task_count ?s2"
    "current_task_rr ?s2 = c2" "task_list ?s2 ! nat c2 = task_list s ! nat c2"
    "invoked ?s2 = invoked s @ [(c, func (task_list s ! nat c), param (task_list s ! nat c)),
                        (c1, func (task_list s ! nat c1), param (task_list s ! nat c1))]"
    "task_count ?s2 = 3"
    using f2 s1(4,5,6,7,8) ar(7,8) by simp_all
  let ?s3 = "scheduler_run n2 ?s2"
  have n02: "n0 \<le> n2" using mono by simp
  have e2: "eligible n2 (task_list ?s2 ! nat (current_task_rr ?s2))"
    using el [OF ar(3,4) n02] s2(4,5) by simp
  note f3 = rr_tick_eligible [OF s2(1,2,3) e2]
  show ?thesis
    using f3 s2(4,5,6,7) ar(9) by simp
qed

text \<open>
  C5. As stated the claim fails where the cursor is not at the first task. Here two
  tasks are registered, one tick runs the first, and a third task is registered: the
  three tasks have equal intervals and all are due at 100 ms, the cursor is at the
  second task, and the next three ticks run the second, the third and the first task,
  which is not the order of registration.
\<close>

theorem rr_order_counterexample:
  "scheduler_type three_tasks_rr = SCHEDULER_RR \<and> task_count three_tasks_rr = 3 \<and>
   interval_ms (task_list three_tasks_rr ! 0) = 10 \<and>
   interval_ms (task_list three_tasks_rr ! 1) = 10 \<and>
   interval_ms (task_list three_tasks_rr ! 2) = 10 \<and>
   eligible 100 (task_list three_tasks_rr ! 0) \<and>
   eligible 100 (task_list three_tasks_rr ! 1) \<and>
   eligible 100 (task_list three_tasks_rr ! 2) \<and>
   current_task_rr three_tasks_rr = 1 \<and>
   invoked three_tasks_rr = [(0, 1, 0)] \<and>
   invoked (sched_steps [Tick 100, Tick 101, Tick 102] three_tasks_rr) =
     [(0, 1, 0), (1, 2, 0), (2, 3, 0), (0, 1, 0)]"
  by code_simp

text \<open>
  C5, amended. Under the round-robin policy with a non-empty registry a tick looks at
  the task at the cursor only: when it is eligible the tick runs it, and in both cases
  the cursor moves on by one, modulo the number of tasks. So with 3 tasks, all due at
  the first of three ticks whose times do not go back, the three ticks run each task
  once, in cyclic order from the task at the cursor, and bring the cursor back; the
  order is the order of registration when the cursor is at the first task.
\<close>

theorem rr_rotation:
  assumes "sched_inv s" "scheduler_type s = SCHEDULER_RR" "0 < task_count s"
  shows "(eligible now (task_list s ! nat (current_task_rr s)) \<longrightarrow>
            scheduler_run now s =
              s\<lparr>task_list := (task_list s)[nat (current_task_rr s) :=
                     (task_list s ! nat (current_task_rr s))\<lparr>last_run := now, state := TASK_READY\<rparr>],
                invoked := invoked s @ [(current_task_rr s,
                     func (task_list s ! nat (current_task_rr s)),
                     param (task_list s ! nat (current_task_rr s)))],
                current_task_rr := (current_task_rr s + 1) mod task_count s\<rparr>) \<and>
         (\<not> eligible now (task_list s ! nat (current_task_rr s)) \<longrightarrow>
            scheduler_run now s =
              s\<lparr>current_task_rr := (current_task_rr s + 1) mod task_count s\<rparr>) \<and>
         (task_count s = 3 \<and>
          (\<forall>k<3. eligible n0 (task_list s ! k) \<and> last_run (task_list s ! k) \<le> n0) \<and>
          n0 \<le> n1 \<and> n1 \<le> n2 \<longrightarrow>
            invoked (scheduler_run n2 (scheduler_run n1 (scheduler_run n0 s))) =
              invoked s @
              map (\<lambda>k. (k, func (task_list s ! nat k), param (task_list s ! nat k)))
                [current_task_rr s, (current_task_rr s + 1) mod 3, (current_task_rr s + 2) mod 3] \<and>
            current_task_rr (scheduler_run n2 (scheduler_run n1 (scheduler_run n0 s))) =
              current_task_rr s \<and>
            (current_task_rr s = 0 \<longrightarrow>
               invoked (scheduler_run n2 (scheduler_run n1 (scheduler_run n0 s))) =
                 invoked s @ [(0, func (task_list s ! 0), param (task_list s ! 0)),
                              (1, func (task_list s ! 1), param (task_list s ! 1)),
                              (2, func (task_list s ! 2), param (task_list s ! 2))]))"
proof -
  note t = rr_tick [OF assms, of now]
  have a: "eligible now (task_list s ! nat (current_task_rr s)) \<longrightarrow>
            scheduler_run now s =
              s\<lparr>task_list := (task_list s)[nat (current_task_rr s) :=
                     (task_list s ! nat (current_task_rr s))\<lparr>last_run := now, state := TASK_READY\<rparr>],
                invoked := invoked s @ [(current_task_rr s,
                     func (task_list s ! nat (current_task_rr s)),
                     param (task_list s ! nat (current_task_rr s)))],
                current_task_rr := (current_task_rr s + 1) mod task_count s\<rparr>"
    using t by simp
  have b: "\<not> eligible now (task_list s ! nat (current_task_rr s)) \<longrightarrow>
            scheduler_run now s =
              s\<lparr>current_task_rr := (current_task_rr s + 1) mod task_count s\<rparr>"
    using t by simp
  have c: "invoked (scheduler_run n2 (scheduler_run n1 (scheduler_run n0 s))) =
              invoked s @
              map (\<lambda>k. (k, func (task_list s ! nat k), param (task_list s ! nat k)))
                [current_task_rr s, (current_task_rr s + 1) mod 3, (current_task_rr s + 2) mod 3] \<and>
            current_task_rr (scheduler_run n2 (scheduler_run n1 (scheduler_run n0 s))) =
              current_task_rr s \<and>
            (current_task_rr s = 0 \<longrightarrow>
               invoked (scheduler_run n2 (scheduler_run n1 (scheduler_run n0 s))) =
                 invoked s @ [(0, func (task_list s ! 0), param (task_list s ! 0)),
                              (1, func (task_list s ! 1), param (task_list s ! 1)),
                              (2, func (task_list s ! 2), param (task_list s ! 2))])"
    if h: "task_count s = 3"
      "\<forall>k<3. eligible n0 (task_list s ! k) \<and> last_run (task_list s ! k) \<le> n0"
      "n0 \<le> n1" "n1 \<le> n2"
  proof -
    from rr_three_ticks [OF assms(1,2) h refl refl refl]
    have r: "invoked (scheduler_run n2 (scheduler_run n1 (scheduler_run n0 s))) =
              invoked s @
              map (\<lambda>k. (k, func (task_list s ! nat k), param (task_list s ! nat k)))
                [current_task_rr s, (current_task_rr s + 1) mod 3, (current_task_rr s + 2) mod 3]"
      "current_task_rr (scheduler_run n2 (scheduler_run n1 (scheduler_run n0 s))) =
              current_task_rr s"
      by simp_all
    have "invoked (scheduler_run n2 (scheduler_run n1 (scheduler_run n0 s))) =
                 invoked s @ [(0, func (task_list s ! 0), param (task_list s ! 0)),
                              (1, func (task_list s ! 1), param (task_list s ! 1)),
                              (2, func (task_list s ! 2), param (task_list s ! 2))]"
      if "current_task_rr s = 0"
      using r(1) that by simp
    with r show ?thesis by blast
  qed
  from a b c show ?thesis by blast
qed

lemma three_tasks_fresh_eq:
  "three_tasks_fresh =
     \<lparr>task_list =
        [\<lparr>func = 1, param = 0, interval_ms = 10, last_run = 0, state = TASK_READY, priority = 0\<rparr>,
         \<lparr>func = 2, param = 0, interval_ms = 10, last_run = 0, state = TASK_READY, priority = 0\<rparr>,
         \<lparr>func = 3, param = 0, interval_ms = 10, last_run = 0, state = TASK_READY, priority = 0\<rparr>,
         zero_task, zero_task],
      task_count = 3, scheduler_type = SCHEDULER_RR, current_task_rr = 0,
      current_task = - 1, invoked = [], warnings = []\<rparr>"
  by (simp add: three_tasks_fresh_def sched_init_def scheduler_add_task_def MAX_TASKS_def
      eval_nat_numeral)

theorem rr_rotation_witness:
  "sched_inv three_tasks_fresh \<and> scheduler_type three_tasks_fresh = SCHEDULER_RR \<and>
   task_count three_tasks_fresh = 3 \<and> current_task_rr three_tasks_fresh = 0 \<and>
   \<not> eligible 5 (task_list three_tasks_fresh ! 0) \<and>
   scheduler_run 5 three_tasks_fresh = three_tasks_fresh\<lparr>current_task_rr := 1\<rparr> \<and>
   eligible 100 (task_list three_tasks_fresh ! 0) \<and>
   eligible 100 (task_list three_tasks_fresh ! 1) \<and>
   eligible 100 (task_list three_tasks_fresh ! 2) \<and>
   invoked (scheduler_run 100 three_tasks_fresh) = [(0, 1, 0)] \<and>
   current_task_rr (scheduler_run 100 three_tasks_fresh) = 1 \<and>
   invoked (scheduler_run 102 (scheduler_run 101 (scheduler_run 100 three_tasks_fresh))) =
     [(0, 1, 0), (1, 2, 0), (2, 3, 0)]"
proof -
  have i: "sched_inv three_tasks_fresh" "scheduler_type three_tasks_fresh = SCHEDULER_RR"
    "0 < task_count three_tasks_fresh"
    by (simp_all add: three_tasks_fresh_eq sched_inv_def)
  have h: "task_count three_tasks_fresh = 3" "current_task_rr three_tasks_fresh = 0"
    "\<not> eligible 5 (task_list three_tasks_fresh ! 0)"
    "eligible 100 (task_list three_tasks_fresh ! 0)"
    "eligible 100 (task_list three_tasks_fresh ! 1)"
    "eligible 100 (task_list three_tasks_fresh ! 2)"
    "last_run (task_list three_tasks_fresh ! 0) \<le> 100"
    "last_run (task_list three_tasks_fresh ! 1) \<le> 100"
    "last_run (task_list three_tasks_fresh ! 2) \<le> 100"
    "invoked three_tasks_fresh = []"
    "func (task_list three_tasks_fresh ! 0) = 1" "param (task_list three_tasks_fresh ! 0) = 0"
    "func (task_list three_tasks_fresh ! 1) = 2" "param (task_list three_tasks_fresh ! 1) = 0"
    "func (task_list three_tasks_fresh ! 2) = 3" "param (task_list three_tasks_fresh ! 2) = 0"
    "(100::64 word) \<le> 101" "(101::64 word) \<le> 102"
    by (simp_all add: three_tasks_fresh_eq eligible_def)
  have d: "\<forall>k<3. eligible 100 (task_list three_tasks_fresh ! k) \<and>
      last_run (task_list three_tasks_fresh ! k) \<le> 100"
  proof (intro allI impI)
    fix k :: nat assume "k < 3"
    then consider "k = 0" | "k = 1" | "k = 2" by linarith
    then show "eligible 100 (task_list three_tasks_fresh ! k) \<and>
      last_run (task_list three_tasks_fresh ! k) \<le> 100"
      using h by cases simp_all
  qed
  note r5 = rr_rotation [OF i, of 5 100 101 102]
  have a: "scheduler_run 5 three_tasks_fresh = three_tasks_fresh\<lparr>current_task_rr := 1\<rparr>"
    using r5 h by simp
  have c: "invoked (scheduler_run 102 (scheduler_run 101 (scheduler_run 100 three_tasks_fresh))) =
     [(0, 1, 0), (1, 2, 0), (2, 3, 0)]"
    using r5 h d by simp
  have b: "invoked (scheduler_run 100 three_tasks_fresh) = [(0, 1, 0)] \<and>
     current_task_rr (scheduler_run 100 three_tasks_fresh) = 1"
    using rr_rotation [OF i, of 100] h by simp
  show ?thesis
    using a b c i h by simp
qed

subsection \<open>The invariant in every reachable state\<close>

lemma run_task_inv:
  assumes "sched_inv s" "0 \<le> j" "j < task_count s"
  shows "sched_inv (run_task j now s)"
proof -
  have "nat j < length (task_list s)" using assms by (rule sched_inv_index)
  then show ?thesis using assms(1) by (simp add: run_task_eq sched_inv_def)
qed

lemma scheduler_run_inv:
  assumes inv: "sched_inv s"
  shows "sched_inv (scheduler_run now s)"
proof -
  obtain s1 where s1: "s1 = s \<or>
          (\<exists>j. 0 \<le> j \<and> j < task_count s \<and> eligible now (task_list s ! nat j) \<and>
               (scheduler_type s = SCHEDULER_RR \<longrightarrow> j = current_task_rr s) \<and>
               s1 = run_task j now s)"
    and r: "scheduler_run now s = s1 \<or>
         scheduler_type s = SCHEDULER_RR \<and> task_count s \<noteq> 0 \<and>
         scheduler_run now s =
           s1\<lparr>current_task_rr := c_rem (current_task_rr s1 + 1) (task_count s1)\<rparr>"
    using scheduler_run_cases [OF inv, of now] by blast
  have i1: "sched_inv s1" using s1 inv by (auto intro: run_task_inv)
  have tc: "task_count s1 = task_count s"
    using s1 inv by (auto simp add: run_task_eq sched_inv_index)
  from r show ?thesis
  proof
    assume "scheduler_run now s = s1"
    then show ?thesis using i1 by simp
  next
    assume a: "scheduler_type s = SCHEDULER_RR \<and> task_count s \<noteq> 0 \<and>
         scheduler_run now s =
           s1\<lparr>current_task_rr := c_rem (current_task_rr s1 + 1) (task_count s1)\<rparr>"
    have p: "0 < task_count s1" using a tc i1 by (simp add: sched_inv_def)
    have "0 \<le> current_task_rr s1 + 1" using i1 by (simp add: sched_inv_def)
    then have "c_rem (current_task_rr s1 + 1) (task_count s1) =
        (current_task_rr s1 + 1) mod task_count s1"
      using p by (rule c_rem_nonneg)
    then have "0 \<le> c_rem (current_task_rr s1 + 1) (task_count s1) \<and>
        c_rem (current_task_rr s1 + 1) (task_count s1) < task_count s1"
      using p by simp
    then show ?thesis using i1 a by (auto simp add: sched_inv_def)
  qed
qed

lemma sched_step_inv: "sched_inv s \<Longrightarrow> sched_inv (sched_step op s)"
proof (cases op)
  case (Add f p ival prio)
  assume "sched_inv s"
  then show ?thesis
    using Add by (auto simp add: scheduler_add_task_def MAX_TASKS_def sched_inv_def)
next
  case (Remove k)
  assume "sched_inv s"
  then show ?thesis
    using Remove by (auto simp add: scheduler_remove_task_def task_update_def sched_inv_def)
next
  case (Setup type)
  assume "sched_inv s"
  then show ?thesis using Setup by (simp add: scheduler_setup_def sched_inv_def)
next
  case (Tick now)
  assume "sched_inv s"
  then show ?thesis using Tick by (simp add: scheduler_run_inv)
qed

lemma timer_isr_inv: "sched_inv s \<Longrightarrow> sched_inv (timer_isr now s)"
proof (cases "highest_priority_task now s = - 1 \<or> highest_priority_task now s = current_task s")
  case True
  assume "sched_inv s"
  then show ?thesis using timer_isr_same [OF True] by simp
next
  case False
  assume "sched_inv s"
  then show ?thesis using timer_isr_dispatch [of s now "highest_priority_task now s"] False
    by simp
qed

text \<open>
  Every state reached from start-up, by the driver's calls and by interrupts in any
  order, satisfies the invariant.
\<close>

lemma sched_steps_inv: "sched_inv s \<Longrightarrow> sched_inv (sched_steps ops s)"
  by (induction ops arbitrary: s) (simp_all add: sched_step_inv)

lemma timer_isr_run_inv: "sched_inv s \<Longrightarrow> sched_inv (timer_isr_run nows s)"
  by (induction nows arbitrary: s) (simp_all add: timer_isr_inv)

subsection \<open>The interrupt handler and removed tasks\<close>

text \<open>
  C7. The claim fails on the code once the interrupt handler has run, which
  \<open>scheduler_setup\<close> arms for the preemptive policy (lines 198 to 203). Line 292 sets the
  state of the previous \<open>current_task\<close> to Ready without testing whether it is Terminated,
  though every selection loop leaves Terminated tasks out. Here the handler dispatches
  task 0, task 0 is then removed and is Terminated, and the next interrupt, won by task
  1, makes task 0 Ready again. From then on its callback is invoked again: by the next
  interrupt, and as well by the next tick under each of the three cooperative policies.
\<close>

theorem terminated_task_revived:
  "scheduler_type two_tasks_preemptive = SCHEDULER_PREEMPTIVE \<and>
   invoked (timer_isr 5 two_tasks_preemptive) = [(0, 1, 0)] \<and>
   state (task_list (scheduler_remove_task 0 (timer_isr 5 two_tasks_preemptive)) ! 0)
     = TASK_TERMINATED \<and>
   state (task_list removed_then_interrupted ! 0) = TASK_READY \<and>
   invoked removed_then_interrupted = [(0, 1, 0), (1, 2, 0)] \<and>
   invoked (timer_isr 7 removed_then_interrupted) = [(0, 1, 0), (1, 2, 0), (0, 1, 0)] \<and>
   invoked (sched_steps [Setup SCHEDULER_PRIORITY, Tick 7] removed_then_interrupted)
     = [(0, 1, 0), (1, 2, 0), (0, 1, 0)] \<and>
   invoked (sched_steps [Setup SCHEDULER_RR, Tick 7] removed_then_interrupted)
     = [(0, 1, 0), (1, 2, 0), (0, 1, 0)] \<and>
   invoked (sched_steps [Setup SCHEDULER_FCFS, Tick 7] removed_then_interrupted)
     = [(0, 1, 0), (1, 2, 0), (0, 1, 0)]"
  by code_simp

subsection \<open>What the priority policy selects\<close>

lemma priority_loop_sound:
  assumes "priority_loop now tasks idxs (b, hp) = (w, p)"
  shows "p \<le> hp \<and>
         (\<forall>i \<in> set idxs. eligible now (tasks ! i) \<longrightarrow> p \<le> priority (tasks ! i)) \<and>
         ((w, p) = (b, hp) \<or>
          (\<exists>k < length idxs. w = int (idxs ! k) \<and> eligible now (tasks ! (idxs ! k)) \<and>
              p = priority (tasks ! (idxs ! k)) \<and> p < hp \<and>
              (\<forall>j<k. eligible now (tasks ! (idxs ! j)) \<longrightarrow> p < priority (tasks ! (idxs ! j)))))"
  using assms
proof (induction idxs arbitrary: b hp)
  case Nil
  then show ?case by simp
next
  case (Cons i idxs)
  let ?pi = "priority (tasks ! i)"
  show ?case
  proof (cases "eligible now (tasks ! i) \<and> ?pi < hp")
    case True
    then have run: "priority_loop now tasks idxs (int i, ?pi) = (w, p)"
      using Cons.prems by simp
    note ih = Cons.IH [OF run]
    have le: "p \<le> ?pi" using ih by simp
    have "(w, p) = (b, hp) \<or>
          (\<exists>k < length (i # idxs). w = int ((i # idxs) ! k) \<and>
              eligible now (tasks ! ((i # idxs) ! k)) \<and>
              p = priority (tasks ! ((i # idxs) ! k)) \<and> p < hp \<and>
              (\<forall>j<k. eligible now (tasks ! ((i # idxs) ! j)) \<longrightarrow>
                   p < priority (tasks ! ((i # idxs) ! j))))"
    proof (cases "(w, p) = (int i, ?pi)")
      case same: True
      then have "0 < length (i # idxs) \<and> w = int ((i # idxs) ! 0) \<and>
              eligible now (tasks ! ((i # idxs) ! 0)) \<and>
              p = priority (tasks ! ((i # idxs) ! 0)) \<and> p < hp \<and>
              (\<forall>j<0. eligible now (tasks ! ((i # idxs) ! j)) \<longrightarrow>
                   p < priority (tasks ! ((i # idxs) ! j)))"
        using True by simp
      then show ?thesis by blast
    next
      case False
      then obtain k where k: "k < length idxs" "w = int (idxs ! k)"
        "eligible now (tasks ! (idxs ! k))" "p = priority (tasks ! (idxs ! k))" "p < ?pi"
        "\<forall>j<k. eligible now (tasks ! (idxs ! j)) \<longrightarrow> p < priority (tasks ! (idxs ! j))"
        using ih by blast
      have "\<forall>j<Suc k. eligible now (tasks ! ((i # idxs) ! j)) \<longrightarrow>
                   p < priority (tasks ! ((i # idxs) ! j))"
        using k(5,6) by (auto simp add: less_Suc_eq_0_disj)
      moreover have "p < hp" using k(5) True by simp
      ultimately have "Suc k < length (i # idxs) \<and> w = int ((i # idxs) ! Suc k) \<and>
              eligible now (tasks ! ((i # idxs) ! Suc k)) \<and>
              p = priority (tasks ! ((i # idxs) ! Suc k)) \<and> p < hp \<and>
              (\<forall>j<Suc k. eligible now (tasks ! ((i # idxs) ! j)) \<longrightarrow>
                   p < priority (tasks ! ((i # idxs) ! j)))"
        using k(1-4) by simp
      then show ?thesis by blast
    qed
    moreover have "p \<le> hp" using le True by simp
    moreover have "\<forall>j \<in> set (i # idxs). eligible now (tasks ! j) \<longrightarrow> p \<le> priority (tasks ! j)"
      using ih le by simp
    ultimately show ?thesis by blast
  next
    case False
    then have run: "priority_loop now tasks idxs (b, hp) = (w, p)"
      using Cons.prems by auto
    note ih = Cons.IH [OF run]
    have le: "p \<le> hp" using ih by simp
    have skip: "eligible now (tasks ! i) \<longrightarrow> hp \<le> ?pi" using False by auto
    have "(w, p) = (b, hp) \<or>
          (\<exists>k < length (i # idxs). w = int ((i # idxs) ! k) \<and>
              eligible now (tasks ! ((i # idxs) ! k)) \<and>
              p = priority (tasks ! ((i # idxs) ! k)) \<and> p < hp \<and>
              (\<forall>j<k. eligible now (tasks ! ((i # idxs) ! j)) \<longrightarrow>
                   p < priority (tasks ! ((i # idxs) ! j))))"
    proof (cases "(w, p) = (b, hp)")
      case True
      then show ?thesis by simp
    next
      case ne: False
      then obtain k where k: "k < length idxs" "w = int (idxs ! k)"
        "eligible now (tasks ! (idxs ! k))" "p = priority (tasks ! (idxs ! k))" "p < hp"
        "\<forall>j<k. eligible now (tasks ! (idxs ! j)) \<longrightarrow> p < priority (tasks ! (idxs ! j))"
        using ih by blast
      have "\<forall>j<Suc k. eligible now (tasks ! ((i # idxs) ! j)) \<longrightarrow>
                   p < priority (tasks ! ((i # idxs) ! j))"
        using k(5,6) skip by (auto simp add: less_Suc_eq_0_disj)
      then have "Suc k < length (i # idxs) \<and> w = int ((i # idxs) ! Suc k) \<and>
              eligible now (tasks ! ((i # idxs) ! Suc k)) \<and>
              p = priority (tasks ! ((i # idxs) ! Suc k)) \<and> p < hp \<and>
              (\<forall>j<Suc k. eligible now (tasks ! ((i # idxs) ! j)) \<longrightarrow>
                   p < priority (tasks ! ((i # idxs) ! j)))"
        using k(1-5) by simp
      then show ?thesis by blast
    qed
    moreover have "\<forall>j \<in> set (i # idxs). eligible now (tasks ! j) \<longrightarrow> p \<le> priority (tasks ! j)"
      using ih le skip by auto
    ultimately show ?thesis using le by blast
  qed
qed

lemma highest_priority_task_none:
  assumes "\<forall>k < nat (task_count s). eligible now (task_list s ! k) \<longrightarrow>
             INT_MAX \<le> priority (task_list s ! k)"
  shows "highest_priority_task now s = - 1"
proof -
  obtain w p where r: "priority_loop now (task_list s) [0..<nat (task_count s)] (- 1, INT_MAX) = (w, p)"
    by (cases "priority_loop now (task_list s) [0..<nat (task_count s)] (- 1, INT_MAX)")
  from priority_loop_sound [OF r]
  have "(w, p) = (- 1, INT_MAX) \<or>
      (\<exists>k < nat (task_count s). eligible now (task_list s ! k) \<and>
           p = priority (task_list s ! k) \<and> p < INT_MAX)"
    by auto
  then have "(w, p) = (- 1, INT_MAX)" using assms by auto
  then show ?thesis using r by (simp add: highest_priority_task_def)
qed

lemma highest_priority_task_first_least:
  assumes k: "k < nat (task_count s)" "eligible now (task_list s ! k)"
      "priority (task_list s ! k) < INT_MAX"
    and least: "\<forall>j < nat (task_count s). eligible now (task_list s ! j) \<longrightarrow>
             priority (task_list s ! k) \<le> priority (task_list s ! j)"
    and first: "\<forall>j<k. eligible now (task_list s ! j) \<longrightarrow>
             priority (task_list s ! k) < priority (task_list s ! j)"
  shows "highest_priority_task now s = int k"
proof -
  let ?n = "nat (task_count s)"
  obtain w p where r: "priority_loop now (task_list s) [0..<?n] (- 1, INT_MAX) = (w, p)"
    by (cases "priority_loop now (task_list s) [0..<?n] (- 1, INT_MAX)")
  note snd = priority_loop_sound [OF r]
  have pk: "p \<le> priority (task_list s ! k)" using snd k(1,2) by simp
  then have "(w, p) \<noteq> (- 1, INT_MAX)" using k(3) by auto
  then obtain k' where k': "k' < ?n" "w = int k'" "eligible now (task_list s ! k')"
    "p = priority (task_list s ! k')"
    "\<forall>j<k'. eligible now (task_list s ! j) \<longrightarrow> p < priority (task_list s ! j)"
    using snd by auto
  have eq: "priority (task_list s ! k') = priority (task_list s ! k)"
    using pk k'(1,3,4) least by fastforce
  have "k' = k"
  proof (rule ccontr)
    assume "k' \<noteq> k"
    then consider "k < k'" | "k' < k" by linarith
    then show False
    proof cases
      case 1
      then have "p < priority (task_list s ! k)" using k'(5) k(2) by simp
      then show False using eq k'(4) by simp
    next
      case 2
      then have "priority (task_list s ! k) < priority (task_list s ! k')"
        using first k'(3) by simp
      then show False using eq by simp
    qed
  qed
  then show ?thesis using r k'(2) by (simp add: highest_priority_task_def)
qed

text \<open>
  Under the priority policy a tick runs the first of the eligible tasks of least priority,
  provided that priority is below \<open>INT_MAX\<close>, that is 999, and no other task; where every
  eligible task has a priority of 999 or more it runs none.
\<close>

lemma priority_tick:
  assumes inv: "sched_inv s" and pr: "scheduler_type s = SCHEDULER_PRIORITY"
  shows "((\<forall>k < nat (task_count s). eligible now (task_list s ! k) \<longrightarrow>
             999 \<le> priority (task_list s ! k)) \<longrightarrow>
          scheduler_run now s = s) \<and>
         (k < nat (task_count s) \<and> eligible now (task_list s ! k) \<and>
          priority (task_list s ! k) < 999 \<and>
          (\<forall>j < nat (task_count s). eligible now (task_list s ! j) \<longrightarrow>
             priority (task_list s ! k) \<le> priority (task_list s ! j)) \<and>
          (\<forall>j<k. eligible now (task_list s ! j) \<longrightarrow>
             priority (task_list s ! k) < priority (task_list s ! j)) \<longrightarrow>
          scheduler_run now s =
            s\<lparr>task_list := (task_list s)[k := (task_list s ! k)\<lparr>last_run := now, state := TASK_READY\<rparr>],
              invoked := invoked s @ [(int k, func (task_list s ! k), param (task_list s ! k))]\<rparr>)"
proof -
  have a: "scheduler_run now s = s"
    if "\<forall>k < nat (task_count s). eligible now (task_list s ! k) \<longrightarrow>
             999 \<le> priority (task_list s ! k)"
  proof -
    have "highest_priority_task now s = - 1"
      using that by (intro highest_priority_task_none) (simp add: INT_MAX_def)
    then show ?thesis using pr by (simp add: scheduler_run_def)
  qed
  have b: "scheduler_run now s =
            s\<lparr>task_list := (task_list s)[k := (task_list s ! k)\<lparr>last_run := now, state := TASK_READY\<rparr>],
              invoked := invoked s @ [(int k, func (task_list s ! k), param (task_list s ! k))]\<rparr>"
    if h: "k < nat (task_count s)" "eligible now (task_list s ! k)"
      "priority (task_list s ! k) < 999"
      "\<forall>j < nat (task_count s). eligible now (task_list s ! j) \<longrightarrow>
             priority (task_list s ! k) \<le> priority (task_list s ! j)"
      "\<forall>j<k. eligible now (task_list s ! j) \<longrightarrow>
             priority (task_list s ! k) < priority (task_list s ! j)"
  proof -
    have "priority (task_list s ! k) < INT_MAX" using h(3) by (simp add: INT_MAX_def)
    with h(1,2) have w: "highest_priority_task now s = int k"
      using h(4,5) by (rule highest_priority_task_first_least)
    have "nat (int k) < length (task_list s)"
      using sched_inv_nat_index [OF inv h(1)] by simp
    then have "run_task (int k) now s =
            s\<lparr>task_list := (task_list s)[k := (task_list s ! k)\<lparr>last_run := now, state := TASK_READY\<rparr>],
              invoked := invoked s @ [(int k, func (task_list s ! k), param (task_list s ! k))]\<rparr>"
      by (simp add: run_task_eq)
    then show ?thesis using w pr by (simp add: scheduler_run_def)
  qed
  from a b show ?thesis by blast
qed

end
